theory Spec2Isabelle
  imports Main
begin

section \<open>Constants and machine arithmetic\<close>

text \<open>
  The two programs are \<^verbatim>\<open>Version 0 - Single Log Append File/main.cpp\<close> (one log file, one
  process-wide index) and \<^verbatim>\<open>Version 0 - With limited size multiple log append life/main.cpp\<close>
  (an engine that owns a list of log files, each with its own index). Bytes are \<^typ>\<open>char\<close>,
  a \<^verbatim>\<open>std::string\<close> is a \<^typ>\<open>string\<close>. Values of type \<^verbatim>\<open>uint64_t\<close> and \<^verbatim>\<open>size_t\<close> are
  natural numbers below \<open>2 ^ 64\<close>; every addition and subtraction the source performs on
  them is written with its wrap-around.
\<close>

definition DELIMITER :: char where
  "DELIMITER = CHR 0x00"

definition MAX_FILE_BYTE_SIZE :: nat where
  "MAX_FILE_BYTE_SIZE = 20"

definition U64 :: nat where
  "U64 = 2 ^ 64"

definition u64_add :: "nat \<Rightarrow> nat \<Rightarrow> nat" where
  "u64_add a b = (a + b) mod U64"

definition u64_sub :: "nat \<Rightarrow> nat \<Rightarrow> nat" where
  "u64_sub a b = (a mod U64 + U64 - b mod U64) mod U64"

text \<open>
  \<^verbatim>\<open>in.tellg()\<close> on a stream whose eofbit is set: the sentry sets failbit and the call
  returns \<^verbatim>\<open>pos_type(-1)\<close>, which the source stores in a \<^verbatim>\<open>uint64_t\<close>.
\<close>

definition TELLG_FAILED :: nat where
  "TELLG_FAILED = U64 - 1"

section \<open>Decimal text: \<^verbatim>\<open>std::to_string\<close> and \<^verbatim>\<open>std::stoi\<close>\<close>

definition digit_char :: "nat \<Rightarrow> char" where
  "digit_char d = ''0123456789'' ! d"

fun to_string_u :: "nat \<Rightarrow> string" where
  "to_string_u n = (if n < 10 then [digit_char n] else to_string_u (n div 10) @ [digit_char (n mod 10)])"

declare to_string_u.simps [simp del]

text \<open>\<^verbatim>\<open>std::to_string(int)\<close>: a minus sign for a negative number, then the decimal digits.\<close>

definition to_string :: "int \<Rightarrow> string" where
  "to_string k = (if k < 0 then CHR ''-'' # to_string_u (nat (- k)) else to_string_u (nat k))"

definition isspace :: "char \<Rightarrow> bool" where
  "isspace c = (c \<in> set [CHR '' '', CHR 0x09, CHR 0x0A, CHR 0x0B, CHR 0x0C, CHR 0x0D])"

definition isdigit :: "char \<Rightarrow> bool" where
  "isdigit c = (c \<in> set ''0123456789'')"

definition digit_val :: "char \<Rightarrow> nat" where
  "digit_val c = of_char c - 48"

definition decimal_val :: "string \<Rightarrow> nat" where
  "decimal_val ds = foldl (\<lambda>a c. 10 * a + digit_val c) 0 ds"

text \<open>
  \<^verbatim>\<open>std::stoi(keyStr)\<close>: leading white space is skipped, one sign is accepted, then the
  longest run of digits is converted and whatever follows is ignored. With no digit it
  throws \<^verbatim>\<open>std::invalid_argument\<close>, with a value outside \<^verbatim>\<open>int\<close> it throws
  \<^verbatim>\<open>std::out_of_range\<close>; the caller catches both alike, so both are \<open>None\<close>.
\<close>

definition stoi :: "string \<Rightarrow> int option" where
  "stoi s =
     (let s1 = dropWhile isspace s;
          neg = (s1 \<noteq> [] \<and> hd s1 = CHR ''-'');
          s2 = (if s1 \<noteq> [] \<and> (hd s1 = CHR ''-'' \<or> hd s1 = CHR ''+'') then tl s1 else s1);
          ds = takeWhile isdigit s2
      in if ds = [] then None
         else let v = (if neg then - int (decimal_val ds) else int (decimal_val ds))
              in if v < - 2147483648 \<or> 2147483647 < v then None else Some v)"

text \<open>\<^verbatim>\<open>data.find(',')\<close>: the position of the first occurrence, \<open>None\<close> for \<^verbatim>\<open>npos\<close>.\<close>

fun find_char :: "char \<Rightarrow> string \<Rightarrow> nat option" where
  "find_char c [] = None"
| "find_char c (x # xs) = (if x = c then Some 0 else map_option Suc (find_char c xs))"

section \<open>The index: \<^verbatim>\<open>MetaData\<close> and \<^verbatim>\<open>HashMap\<close>\<close>

record MetaData =
  byteOffset :: nat
  byteSize :: nat

record HashMap =
  entries :: "int \<rightharpoonup> MetaData"
  currByteOffset :: nat

definition HashMap_new :: HashMap where
  "HashMap_new = \<lparr>entries = Map.empty, currByteOffset = 0\<rparr>"

definition HashMap_currentOffset :: "HashMap \<Rightarrow> nat" where
  "HashMap_currentOffset h = currByteOffset h"

definition HashMap_add :: "HashMap \<Rightarrow> int \<Rightarrow> nat \<Rightarrow> HashMap" where
  "HashMap_add h key recordSize =
     \<lparr>entries = (entries h)(key \<mapsto> \<lparr>byteOffset = currByteOffset h, byteSize = recordSize\<rparr>),
      currByteOffset = u64_add (currByteOffset h) recordSize\<rparr>"

definition HashMap_get :: "HashMap \<Rightarrow> int \<Rightarrow> MetaData" where
  "HashMap_get h key =
     (case entries h key of None \<Rightarrow> \<lparr>byteOffset = 0, byteSize = 0\<rparr> | Some md \<Rightarrow> md)"

definition HashMap_reset :: "HashMap \<Rightarrow> HashMap" where
  "HashMap_reset h = \<lparr>entries = Map.empty, currByteOffset = 0\<rparr>"

section \<open>The disk and the output stream\<close>

text \<open>
  The disk maps a path to the bytes of the file there. Whether the operating system lets
  a file be opened for appending, and whether it accepts the bytes of a flush, is outside
  the program: the two predicates \<open>can_open\<close> and \<open>can_write\<close> stand for it. A read
  handle opens exactly when the file exists.
\<close>

record Disk =
  files :: "string \<rightharpoonup> string"
  can_open :: "string \<Rightarrow> bool"
  can_write :: "string \<Rightarrow> bool"

text \<open>
  A \<^verbatim>\<open>std::ofstream\<close>: whether it is open, whether failbit or badbit is set, the path it
  was opened on, and the bytes it has accepted but not yet handed to the disk.
\<close>

record ofstream =
  is_open :: bool
  failed :: bool
  target :: string
  buffer :: string

definition ofstream_new :: ofstream where
  "ofstream_new = \<lparr>is_open = False, failed = False, target = [], buffer = []\<rparr>"

text \<open>\<^verbatim>\<open>store.open(currDir, std::ios::app)\<close>: creates the file when it is missing.\<close>

definition ofstream_open :: "ofstream \<Rightarrow> Disk \<Rightarrow> string \<Rightarrow> ofstream \<times> Disk" where
  "ofstream_open s d p =
     (if can_open d p \<and> \<not> is_open s then
        (s\<lparr>is_open := True, failed := False, target := p\<rparr>,
         d\<lparr>files := (files d)(p \<mapsto> (case files d p of None \<Rightarrow> [] | Some c \<Rightarrow> c))\<rparr>)
      else (s\<lparr>failed := True\<rparr>, d))"

text \<open>\<^verbatim>\<open>store << data\<close>: a stream that is not good accepts nothing.\<close>

definition ofstream_put :: "ofstream \<Rightarrow> string \<Rightarrow> ofstream" where
  "ofstream_put s data =
     (if is_open s \<and> \<not> failed s then s\<lparr>buffer := buffer s @ data\<rparr> else s\<lparr>failed := True\<rparr>)"

text \<open>
  \<^verbatim>\<open>store.flush()\<close>: the accepted bytes go to the end of the file (append mode); when the
  disk refuses them, badbit is set and the file keeps its bytes.
\<close>

definition ofstream_flush :: "ofstream \<Rightarrow> Disk \<Rightarrow> ofstream \<times> Disk" where
  "ofstream_flush s d =
     (if is_open s \<and> \<not> failed s then
        (if can_write d (target s) then
           (s\<lparr>buffer := []\<rparr>,
            d\<lparr>files := (files d)(target s \<mapsto>
                 (case files d (target s) of None \<Rightarrow> [] | Some c \<Rightarrow> c) @ buffer s)\<rparr>)
         else (s\<lparr>failed := True\<rparr>, d))
      else (s, d))"

text \<open>\<^verbatim>\<open>store.close()\<close>: hands over what is buffered and closes.\<close>

definition ofstream_close :: "ofstream \<Rightarrow> Disk \<Rightarrow> ofstream \<times> Disk" where
  "ofstream_close s d = (let (s', d') = ofstream_flush s d in (s'\<lparr>is_open := False\<rparr>, d'))"

section \<open>Reading a log back\<close>

text \<open>
  \<^verbatim>\<open>std::getline(in, data, DELIMITER)\<close> on the bytes not yet read: the bytes before the
  first delimiter, the bytes after it, and whether the end of the file was reached
  instead of a delimiter (eofbit).
\<close>

definition getline :: "string \<Rightarrow> string \<times> string \<times> bool" where
  "getline rest =
     (let data = takeWhile (\<lambda>c. c \<noteq> DELIMITER) rest
      in if length data < length rest then (data, drop (length data + 1) rest, False)
         else (data, [], True))"

definition tellg :: "nat \<Rightarrow> bool \<Rightarrow> nat" where
  "tellg pos eof = (if eof then TELLG_FAILED else pos mod U64)"

lemma getline_shorter: "getline rest = (data, rest', False) \<Longrightarrow> length rest' < length rest"
  by (auto simp: getline_def Let_def split: if_splits)

text \<open>
  The loop \<^verbatim>\<open>while (in) { ... }\<close> of \<^verbatim>\<open>Store::init\<close>, the same in both programs. Its state
  is the unread bytes, the read position, the index and the local \<^verbatim>\<open>currentOffset\<close>.
  The stream is good at the head of every iteration: once \<^verbatim>\<open>getline\<close> has set eofbit,
  the iteration either breaks or calls \<^verbatim>\<open>tellg\<close>, which sets failbit and ends the loop.
\<close>

function replay :: "string \<Rightarrow> nat \<Rightarrow> HashMap \<Rightarrow> nat \<Rightarrow> HashMap \<times> nat" where
  "replay rest pos cache currentOffset =
     (let startPos = tellg pos False in
      case getline rest of (data, rest', eof) \<Rightarrow>
        if data = [] \<and> eof then (cache, currentOffset)
        else if data = [] then replay rest' (pos + 1) cache currentOffset
        else
          (case find_char CHR '','' data of
             None \<Rightarrow>
               (let currentOffset' = tellg (pos + length data + 1) eof
                in if eof then (cache, currentOffset')
                   else replay rest' (pos + length data + 1) cache currentOffset')
           | Some commaPos \<Rightarrow>
               (case stoi (take commaPos data) of
                  None \<Rightarrow>
                    (let currentOffset' = tellg (pos + length data + 1) eof
                     in if eof then (cache, currentOffset')
                        else replay rest' (pos + length data + 1) cache currentOffset')
                | Some key \<Rightarrow>
                    (let recordSize = u64_sub (tellg (pos + length data + 1) eof) startPos;
                         cache' = HashMap_add cache key recordSize;
                         currentOffset' = u64_add currentOffset recordSize
                     in if eof then (cache', currentOffset')
                        else replay rest' (pos + length data + 1) cache' currentOffset'))))"
  by pat_completeness auto
termination
  by (relation "measure (\<lambda>(rest, pos, cache, currentOffset). length rest)")
     (auto dest: getline_shorter [OF sym])

declare replay.simps [simp del]

section \<open>One log file with its index: \<^verbatim>\<open>Store\<close> of the multi-file program\<close>

record Store =
  store :: ofstream
  currDir :: string
  cache :: HashMap
  totalBytes :: nat

definition Store_open :: "Store \<Rightarrow> Disk \<Rightarrow> Store \<times> Disk" where
  "Store_open st d = (let (f, d') = ofstream_open (store st) d (currDir st) in (st\<lparr>store := f\<rparr>, d'))"

definition Store_init :: "Store \<Rightarrow> Disk \<Rightarrow> Store \<times> Disk" where
  "Store_init st d =
     (let (st0, d0) =
            (if is_open (store st)
             then (let (f, d') = ofstream_close (store st) d in (st\<lparr>store := f\<rparr>, d'))
             else (st, d))
      in case files d0 (currDir st0) of
           None \<Rightarrow> Store_open st0 d0
         | Some content \<Rightarrow>
             (let (c, currentOffset) = replay content 0 (cache st0) 0
              in Store_open (st0\<lparr>cache := c, totalBytes := currentOffset\<rparr>) d0))"

definition Store_new :: "string \<Rightarrow> Disk \<Rightarrow> Store \<times> Disk" where
  "Store_new dir d =
     Store_init \<lparr>store = ofstream_new, currDir = dir, cache = HashMap_new, totalBytes = 0\<rparr> d"

text \<open>
  \<^verbatim>\<open>Store::set(key, data, bytes)\<close>, statement by statement. Nothing the stream reports is
  looked at after the \<^verbatim>\<open>is_open\<close> test.
\<close>

definition Store_set_write :: "Store \<Rightarrow> string \<Rightarrow> Store" where
  "Store_set_write st data = st\<lparr>store := ofstream_put (store st) data\<rparr>"

definition Store_set_count :: "Store \<Rightarrow> nat \<Rightarrow> Store" where
  "Store_set_count st bytes = st\<lparr>totalBytes := u64_add (totalBytes st) bytes\<rparr>"

definition Store_set_flush :: "Store \<Rightarrow> Disk \<Rightarrow> Store \<times> Disk" where
  "Store_set_flush st d = (let (f, d') = ofstream_flush (store st) d in (st\<lparr>store := f\<rparr>, d'))"

definition Store_set_index :: "Store \<Rightarrow> int \<Rightarrow> nat \<Rightarrow> Store" where
  "Store_set_index st key bytes = st\<lparr>cache := HashMap_add (cache st) key bytes\<rparr>"

definition Store_set :: "Store \<Rightarrow> Disk \<Rightarrow> int \<Rightarrow> string \<Rightarrow> nat \<Rightarrow> Store \<times> Disk \<times> bool" where
  "Store_set st d key data bytes =
     (if \<not> is_open (store st) then (st, d, False)
      else
        (let st1 = Store_set_write st data;
             st2 = Store_set_count st1 bytes;
             (st3, d') = Store_set_flush st2 d;
             st4 = Store_set_index st3 key bytes
         in (st4, d', True)))"

text \<open>
  The states \<^verbatim>\<open>Store::set\<close> passes through when the stream is open: on entry and after
  each of its four statements.
\<close>

definition Store_set_trace :: "Store \<Rightarrow> Disk \<Rightarrow> int \<Rightarrow> string \<Rightarrow> nat \<Rightarrow> (Store \<times> Disk) list" where
  "Store_set_trace st d key data bytes =
     (let st1 = Store_set_write st data;
          st2 = Store_set_count st1 bytes;
          (st3, d') = Store_set_flush st2 d;
          st4 = Store_set_index st3 key bytes
      in [(st, d), (st1, d), (st2, d), (st3, d'), (st4, d')])"

text \<open>
  \<^verbatim>\<open>Store::get(key, out)\<close>: a fresh read handle, a seek to the recorded offset, one
  \<^verbatim>\<open>getline\<close>. The offset becomes a signed \<^verbatim>\<open>streamoff\<close>; from \<open>2 ^ 63\<close> on it is negative,
  the seek fails and \<^verbatim>\<open>getline\<close> leaves \<^verbatim>\<open>out\<close> alone. The result is true either way.
\<close>

definition Store_get :: "Store \<Rightarrow> Disk \<Rightarrow> int \<Rightarrow> string \<Rightarrow> bool \<times> string" where
  "Store_get st d key out =
     (let metaData = HashMap_get (cache st) key
      in if byteSize metaData \<le> 0 then (False, out)
         else case files d (currDir st) of
                None \<Rightarrow> (False, out)
              | Some content \<Rightarrow>
                  (True, if byteOffset metaData < 2 ^ 63
                         then fst (getline (drop (byteOffset metaData) content))
                         else out))"

definition Store_getTotalBytes :: "Store \<Rightarrow> nat" where
  "Store_getTotalBytes st = totalBytes st"

section \<open>The single-file program\<close>

text \<open>
  \<^verbatim>\<open>Store\<close> of \<^verbatim>\<open>Version 0 - Single Log Append File/main.cpp\<close>. Its index is the
  process-wide \<^verbatim>\<open>HashMap::getInstance()\<close>; the program constructs one store, so the
  index is carried in the store's state. The member \<^verbatim>\<open>files\<close> is never initialised nor
  read and is left out. The replay loop is the same text as in the multi-file program,
  its local \<^verbatim>\<open>currentOffset\<close> is dropped at the end.
\<close>

record Store1 =
  store1 :: ofstream
  currDir1 :: string
  cache1 :: HashMap

definition Store1_open :: "Store1 \<Rightarrow> Disk \<Rightarrow> Store1 \<times> Disk" where
  "Store1_open st d =
     (let (f, d') = ofstream_open (store1 st) d (currDir1 st) in (st\<lparr>store1 := f\<rparr>, d'))"

definition Store1_init :: "Store1 \<Rightarrow> Disk \<Rightarrow> Store1 \<times> Disk" where
  "Store1_init st d =
     (let (st0, d0) =
            (if is_open (store1 st)
             then (let (f, d') = ofstream_close (store1 st) d in (st\<lparr>store1 := f\<rparr>, d'))
             else (st, d))
      in case files d0 (currDir1 st0) of
           None \<Rightarrow> Store1_open st0 d0
         | Some content \<Rightarrow>
             (let (c, currentOffset) = replay content 0 (cache1 st0) 0
              in Store1_open (st0\<lparr>cache1 := c\<rparr>) d0))"

definition Store1_new :: "string \<Rightarrow> HashMap \<Rightarrow> Disk \<Rightarrow> Store1 \<times> Disk" where
  "Store1_new dir instance d =
     Store1_init \<lparr>store1 = ofstream_new, currDir1 = dir, cache1 = instance\<rparr> d"

definition Store1_set_trace :: "Store1 \<Rightarrow> Disk \<Rightarrow> int \<Rightarrow> string \<Rightarrow> (Store1 \<times> Disk) list" where
  "Store1_set_trace st d key val =
     (let data = to_string key @ '','' @ val @ [DELIMITER];
          st1 = st\<lparr>store1 := ofstream_put (store1 st) data\<rparr>;
          (f, d') = ofstream_flush (store1 st1) d;
          st2 = st1\<lparr>store1 := f\<rparr>;
          st3 = st2\<lparr>cache1 := HashMap_add (cache1 st2) key (length data)\<rparr>
      in [(st, d), (st1, d), (st2, d'), (st3, d')])"

definition Store1_set :: "Store1 \<Rightarrow> Disk \<Rightarrow> int \<Rightarrow> string \<Rightarrow> Store1 \<times> Disk \<times> bool" where
  "Store1_set st d key val =
     (if \<not> is_open (store1 st) then (st, d, False)
      else
        (let data = to_string key @ '','' @ val @ [DELIMITER];
             st1 = st\<lparr>store1 := ofstream_put (store1 st) data\<rparr>;
             (f, d') = ofstream_flush (store1 st1) d;
             st2 = st1\<lparr>store1 := f\<rparr>;
             st3 = st2\<lparr>cache1 := HashMap_add (cache1 st2) key (length data)\<rparr>
         in (st3, d', True)))"

definition Store1_get :: "Store1 \<Rightarrow> Disk \<Rightarrow> int \<Rightarrow> string \<Rightarrow> bool \<times> string" where
  "Store1_get st d key out =
     (let metaData = HashMap_get (cache1 st) key
      in if byteSize metaData \<le> 0 then (False, out)
         else case files d (currDir1 st) of
                None \<Rightarrow> (False, out)
              | Some content \<Rightarrow>
                  (True, if byteOffset metaData < 2 ^ 63
                         then fst (getline (drop (byteOffset metaData) content))
                         else out))"

section \<open>The engine: \<^verbatim>\<open>StorageEngine\<close>\<close>

record StorageEngine =
  activeStores :: "Store list"
  archivedStores :: "Store list"
  prefixFileName :: string
  readBuffer :: string
  totalFiles :: nat
  totalMerged :: nat

definition StorageEngine_createStore :: "StorageEngine \<Rightarrow> Disk \<Rightarrow> StorageEngine \<times> Disk" where
  "StorageEngine_createStore e d =
     (let n = u64_add (totalFiles e) 1;
          dir = prefixFileName e @ ''_'' @ to_string_u n @ ''.txt'';
          (st, d') = Store_new dir d
      in (e\<lparr>totalFiles := n, activeStores := st # activeStores e\<rparr>, d'))"

definition StorageEngine_onCapacityExceeded :: "StorageEngine \<Rightarrow> Disk \<Rightarrow> StorageEngine \<times> Disk" where
  "StorageEngine_onCapacityExceeded e d = StorageEngine_createStore e d"

definition StorageEngine_init :: "StorageEngine \<Rightarrow> Disk \<Rightarrow> StorageEngine \<times> Disk" where
  "StorageEngine_init e d = StorageEngine_createStore (e\<lparr>activeStores := [], archivedStores := []\<rparr>) d"

definition StorageEngine_new :: "string \<Rightarrow> Disk \<Rightarrow> StorageEngine \<times> Disk" where
  "StorageEngine_new prefix d =
     StorageEngine_init
       \<lparr>activeStores = [], archivedStores = [], prefixFileName = prefix, readBuffer = [],
        totalFiles = 0, totalMerged = 0\<rparr> d"

text \<open>
  \<^verbatim>\<open>StorageEngine::set\<close>. The reference \<^verbatim>\<open>currStore\<close> is bound to the front of the list
  before the capacity test. \<^verbatim>\<open>push_front\<close> on a \<^verbatim>\<open>std::list\<close> leaves references to its
  elements valid, so after \<^verbatim>\<open>onCapacityExceeded()\<close> the reference still denotes the same
  store, which is then the second element. The list is never empty once the constructor
  has run; \<^verbatim>\<open>front()\<close> of an empty list has no defined behaviour and is \<open>None\<close> here.
\<close>

definition StorageEngine_set ::
    "StorageEngine \<Rightarrow> Disk \<Rightarrow> int \<Rightarrow> string \<Rightarrow> (StorageEngine \<times> Disk \<times> bool) option" where
  "StorageEngine_set e d key val =
     (let data = to_string key @ '','' @ val @ [DELIMITER];
          bytes = length data
      in case activeStores e of
           [] \<Rightarrow> None
         | currStore # older \<Rightarrow>
             if u64_add (Store_getTotalBytes currStore) bytes > MAX_FILE_BYTE_SIZE then
               (let (e1, d1) = StorageEngine_onCapacityExceeded e d;
                    (st', d2, ok) = Store_set currStore d1 key data bytes
                in Some (e1\<lparr>activeStores := (activeStores e1)[1 := st']\<rparr>, d2, ok))
             else
               (let (st', d2, ok) = Store_set currStore d key data bytes
                in Some (e\<lparr>activeStores := st' # older\<rparr>, d2, ok)))"

text \<open>
  \<^verbatim>\<open>StorageEngine::get\<close>: the stores are asked front to back. The result is the content
  of \<^verbatim>\<open>readBuffer\<close> behind the returned pointer, \<open>None\<close> for \<^verbatim>\<open>nullptr\<close>.
\<close>

fun get_loop :: "Store list \<Rightarrow> Disk \<Rightarrow> int \<Rightarrow> string \<Rightarrow> bool \<times> string" where
  "get_loop [] d key buf = (False, buf)"
| "get_loop (st # sts) d key buf =
     (case Store_get st d key buf of
        (True, out) \<Rightarrow> (True, out)
      | (False, out) \<Rightarrow> get_loop sts d key out)"

definition StorageEngine_get :: "StorageEngine \<Rightarrow> Disk \<Rightarrow> int \<Rightarrow> StorageEngine \<times> string option" where
  "StorageEngine_get e d key =
     (let (found, buf) = get_loop (activeStores e) d key []
      in (e\<lparr>readBuffer := buf\<rparr>, if found then Some buf else None))"

section \<open>A run of the engine\<close>

text \<open>
  A disk with no file on it that refuses nothing, and a sequence of \<^verbatim>\<open>set\<close> calls whose
  results are dropped, as \<^verbatim>\<open>main\<close> issues them.
\<close>

definition empty_disk :: Disk where
  "empty_disk = \<lparr>files = Map.empty, can_open = (\<lambda>p. True), can_write = (\<lambda>p. True)\<rparr>"

fun StorageEngine_puts ::
    "StorageEngine \<times> Disk \<Rightarrow> (int \<times> string) list \<Rightarrow> (StorageEngine \<times> Disk) option" where
  "StorageEngine_puts ed [] = Some ed"
| "StorageEngine_puts (e, d) ((key, val) # ops) =
     (case StorageEngine_set e d key val of
        None \<Rightarrow> None
      | Some (e', d', ok) \<Rightarrow> StorageEngine_puts (e', d') ops)"

text \<open>The same for the single-file program: a sequence of \<^verbatim>\<open>set\<close> calls on its one store.\<close>

fun Store1_puts :: "Store1 \<times> Disk \<Rightarrow> (int \<times> string) list \<Rightarrow> Store1 \<times> Disk" where
  "Store1_puts sd [] = sd"
| "Store1_puts (st, d) ((key, val) # ops) =
     (case Store1_set st d key val of (st', d', ok) \<Rightarrow> Store1_puts (st', d') ops)"

lemmas model_defs =
  DELIMITER_def MAX_FILE_BYTE_SIZE_def U64_def u64_add_def u64_sub_def TELLG_FAILED_def
  digit_char_def to_string_u.simps to_string_def isspace_def isdigit_def digit_val_def
  decimal_val_def stoi_def HashMap_new_def HashMap_add_def HashMap_get_def ofstream_new_def
  ofstream_open_def ofstream_put_def ofstream_flush_def ofstream_close_def getline_def
  tellg_def replay.simps Store_open_def Store_init_def Store_new_def Store_set_write_def
  Store_set_count_def Store_set_flush_def Store_set_index_def Store_set_def Store_get_def
  Store_getTotalBytes_def StorageEngine_createStore_def StorageEngine_onCapacityExceeded_def
  StorageEngine_init_def StorageEngine_new_def StorageEngine_set_def StorageEngine_get_def
  Store1_open_def Store1_init_def Store1_new_def Store1_set_def Store1_get_def
  empty_disk_def Let_def

section \<open>Predicates used in the statements\<close>




text \<open>
  Every entry of an index lies inside the bytes of its file; with no file the index is
  empty.
\<close>

definition entries_on_disk :: "HashMap \<Rightarrow> string option \<Rightarrow> bool" where
  "entries_on_disk h file =
     (case file of
        None \<Rightarrow> entries h = Map.empty
      | Some c \<Rightarrow> (\<forall>k md. entries h k = Some md \<longrightarrow> byteOffset md + byteSize md \<le> length c))"

text \<open>
  A store in the state in which \<^verbatim>\<open>set\<close> is meant to find it: the stream is open on the
  store's path, good and drained, the disk takes the bytes, and neither the index
  entries nor the cursor reach beyond the end of the file.
\<close>

definition ready_to_append :: "ofstream \<Rightarrow> string \<Rightarrow> HashMap \<Rightarrow> Disk \<Rightarrow> string \<Rightarrow> bool" where
  "ready_to_append f dir h d content =
     (is_open f \<and> \<not> failed f \<and> buffer f = [] \<and> target f = dir \<and> can_write d dir \<and>
      files d dir = Some content \<and> entries_on_disk h (Some content) \<and>
      currByteOffset h \<le> length content)"

text \<open>
  The key the replay loop reads off a record: the text before the first comma, through
  \<^verbatim>\<open>std::stoi\<close>. \<open>None\<close> is a record the loop skips (no comma, or a key that does not
  parse).
\<close>

definition record_key :: "string \<Rightarrow> int option" where
  "record_key data =
     (case find_char CHR '','' data of
        None \<Rightarrow> None
      | Some commaPos \<Rightarrow> stoi (take commaPos data))"

text \<open>
  A stretch of a file that is empty or ends with a delimiter, so that a record starts
  right after it; and a stretch whose replay never changes what the index holds for a
  key.
\<close>

definition boundary :: "string \<Rightarrow> bool" where
  "boundary A = (A = [] \<or> last A = DELIMITER)"

definition never_indexes :: "string \<Rightarrow> int \<Rightarrow> bool" where
  "never_indexes post k = (\<forall>p h off. entries (fst (replay post p h off)) k = entries h k)"

text \<open>
  The name \<^verbatim>\<open>createStore\<close> gives the \<open>n\<close>-th log file, and the bytes \<^verbatim>\<open>set\<close> writes for
  a key and a value, without the closing delimiter.
\<close>

definition segment_path :: "string \<Rightarrow> nat \<Rightarrow> string" where
  "segment_path prefix n = prefix @ ''_'' @ to_string_u n @ ''.txt''"

definition frame_body :: "int \<Rightarrow> string \<Rightarrow> string" where
  "frame_body key val = to_string key @ '','' @ val"

text \<open>
  A store whose index agrees with its file: the stream is open on the store's path, good
  and drained, the disk takes writes there, cursor and byte count are the length of the
  file, and from every indexed offset on there is a delimiter in the file. The file is
  shorter than \<open>2 ^ 62\<close> bytes.
\<close>

definition store_ok :: "Store \<Rightarrow> Disk \<Rightarrow> bool" where
  "store_ok st d =
     (is_open (store st) \<and> \<not> failed (store st) \<and> buffer (store st) = [] \<and>
      target (store st) = currDir st \<and> can_write d (currDir st) \<and>
      (case files d (currDir st) of
         None \<Rightarrow> False
       | Some content \<Rightarrow>
           currByteOffset (cache st) = length content \<and> totalBytes st = length content \<and>
           length content < 2 ^ 62 \<and>
           (\<forall>k md. entries (cache st) k = Some md \<longrightarrow>
              0 < byteSize md \<and> DELIMITER \<in> set (drop (byteOffset md) content))))"

definition store1_ok :: "Store1 \<Rightarrow> Disk \<Rightarrow> bool" where
  "store1_ok st d =
     (is_open (store1 st) \<and> \<not> failed (store1 st) \<and> buffer (store1 st) = [] \<and>
      target (store1 st) = currDir1 st \<and> can_write d (currDir1 st) \<and>
      (case files d (currDir1 st) of
         None \<Rightarrow> False
       | Some content \<Rightarrow>
           currByteOffset (cache1 st) = length content \<and> length content < 2 ^ 62 \<and>
           (\<forall>k md. entries (cache1 st) k = Some md \<longrightarrow>
              0 < byteSize md \<and> DELIMITER \<in> set (drop (byteOffset md) content))))"

text \<open>
  An engine whose stores all agree with their files: the list is not empty, no two
  stores share a path, the front store holds at most the threshold, every path is one
  \<^verbatim>\<open>createStore\<close> has given out, and nothing is on disk yet under the names still to come.
\<close>

definition engine_ok :: "StorageEngine \<Rightarrow> Disk \<Rightarrow> bool" where
  "engine_ok e d =
     (activeStores e \<noteq> [] \<and>
      list_all (\<lambda>st. store_ok st d) (activeStores e) \<and>
      distinct (map currDir (activeStores e)) \<and>
      totalBytes (hd (activeStores e)) \<le> MAX_FILE_BYTE_SIZE \<and>
      list_all (\<lambda>st. \<exists>n. n \<le> totalFiles e \<and> currDir st = segment_path (prefixFileName e) n)
        (activeStores e) \<and>
      (\<forall>n. totalFiles e < n \<longrightarrow>
         files d (segment_path (prefixFileName e) n) = None \<and>
         can_open d (segment_path (prefixFileName e) n) \<and>
         can_write d (segment_path (prefixFileName e) n)))"

text \<open>
  A put the amended statements speak about: no delimiter in the value and a record below
  \<open>2 ^ 61\<close> bytes. A directory with no log file of the given prefix, where log files can
  be created and written. The value of the last put of a key in a sequence of puts; and
  the number of bytes a sequence of puts appends.
\<close>

definition plain_put :: "int \<times> string \<Rightarrow> bool" where
  "plain_put kv = (DELIMITER \<notin> set (snd kv) \<and> length (frame_body (fst kv) (snd kv)) < 2 ^ 61)"

definition fresh_disk :: "string \<Rightarrow> Disk \<Rightarrow> bool" where
  "fresh_disk prefix d =
     (\<forall>n. files d (segment_path prefix n) = None \<and> can_open d (segment_path prefix n) \<and>
          can_write d (segment_path prefix n))"

fun last_put :: "(int \<times> string) list \<Rightarrow> int \<Rightarrow> string option" where
  "last_put [] k = None"
| "last_put ((key, val) # ops) k =
     (case last_put ops k of Some w \<Rightarrow> Some w | None \<Rightarrow> if k = key then Some val else None)"

definition frames_size :: "(int \<times> string) list \<Rightarrow> nat" where
  "frames_size ops = sum_list (map (\<lambda>kv. length (frame_body (fst kv) (snd kv)) + 1) ops)"

section \<open>Basic facts\<close>

subsection \<open>\<^verbatim>\<open>getline\<close>\<close>



lemma takeWhile_frame:
  "DELIMITER \<notin> set data \<Longrightarrow> takeWhile (\<lambda>c. c \<noteq> DELIMITER) (data @ DELIMITER # r) = data"
  by (induction data) auto

lemma takeWhile_no_delimiter:
  "DELIMITER \<notin> set data \<Longrightarrow> takeWhile (\<lambda>c. c \<noteq> DELIMITER) data = data"
  by (induction data) auto

lemma getline_split: "DELIMITER \<notin> set data \<Longrightarrow> getline (data @ DELIMITER # rest') = (data, rest', False)"
  by (simp add: getline_def Let_def takeWhile_frame)

lemma getline_final: "DELIMITER \<notin> set data \<Longrightarrow> getline data = (data, [], True)"
  by (simp add: getline_def Let_def takeWhile_no_delimiter)

subsection \<open>Lookup\<close>




lemma u64_sub_record:
  "pos + n < 2 ^ 63 \<Longrightarrow> 0 < n \<Longrightarrow> u64_sub (tellg (pos + n) False) (tellg pos False) = n"
  by (simp add: u64_sub_def tellg_def U64_def)

lemma u64_sub_eof:
  assumes "pos < 2 ^ 63"
  shows "u64_sub (tellg q True) (tellg pos False) = U64 - 1 - pos"
proof -
  have "(U64 - 1 + U64 - pos) = (U64 - 1 - pos) + U64"
    using assms by (simp add: U64_def)
  then have "(U64 - 1 + U64 - pos) mod U64 = (U64 - 1 - pos) mod U64"
    by (metis mod_add_self2)
  moreover have "U64 - 1 - pos < U64" by (simp add: U64_def)
  moreover have "pos mod U64 = pos" using assms by (simp add: U64_def)
  ultimately show ?thesis
    by (simp add: u64_sub_def tellg_def TELLG_FAILED_def)
qed

lemma u64_sub_eof_pos: "pos < 2 ^ 63 \<Longrightarrow> 0 < u64_sub (tellg q True) (tellg pos False)"
  by (simp add: u64_sub_eof U64_def)




lemma Store_set_cache:
  "cache (fst (Store_set st d key data bytes)) =
     (if is_open (store st) then HashMap_add (cache st) key bytes else cache st)"
  by (simp add: Store_set_def Store_set_index_def Store_set_flush_def Store_set_count_def
      Store_set_write_def Let_def split: prod.splits)

lemma Store_set_currDir: "currDir (fst (Store_set st d key data bytes)) = currDir st"
  by (simp add: Store_set_def Store_set_index_def Store_set_flush_def Store_set_count_def
      Store_set_write_def Let_def split: prod.splits)

lemma Store_set_ok: "snd (snd (Store_set st d key data bytes)) = is_open (store st)"
  by (simp add: Store_set_def Let_def split: prod.splits)

lemma Store_open_cache: "cache (fst (Store_open st d)) = cache st"
  by (simp add: Store_open_def split: prod.splits)






section \<open>Rotation\<close>

text \<open>
  C1 (the put that exceeds the threshold goes to the new active segment, the previous
  segment is not touched after rotation). The run is the one \<^verbatim>\<open>main\<close> starts with, on an
  empty directory: four records of five bytes fill \<^verbatim>\<open>store_1.txt\<close> to the threshold of
  20 bytes. The fifth put creates \<^verbatim>\<open>store_2.txt\<close> and puts it in front, and then writes
  its record through the reference taken before: \<^verbatim>\<open>store_1.txt\<close> grows to 25 bytes and
  its index gets the entry, \<^verbatim>\<open>store_2.txt\<close> and its index stay empty.
\<close>

theorem rotation_appends_to_previous_store:
  "(case StorageEngine_puts (StorageEngine_new ''store'' empty_disk)
            [(1, ''11''), (2, ''21''), (3, ''31''), (2, ''12'')] of
       None \<Rightarrow> False
     | Some (e, d) \<Rightarrow>
         map currDir (activeStores e) = [''store_1.txt''] \<and>
         map totalBytes (activeStores e) = [20] \<and>
         (case StorageEngine_set e d 3 ''22'' of
            None \<Rightarrow> False
          | Some (e', d', ok) \<Rightarrow>
              ok \<and>
              map currDir (activeStores e') = [''store_2.txt'', ''store_1.txt''] \<and>
              files d' ''store_2.txt'' = Some [] \<and>
              map (\<lambda>st. entries (cache st) 3) (activeStores e') =
                [None, Some \<lparr>byteOffset = 20, byteSize = 5\<rparr>] \<and>
              files d' ''store_1.txt'' = Some (the (files d ''store_1.txt'') @ ''3,22'' @ [DELIMITER]) \<and>
              length (the (files d' ''store_1.txt'')) = 25))"
  by (simp add: model_defs)


section \<open>Sequence numbers\<close>

lemma Store_open_currDir: "currDir (fst (Store_open st d)) = currDir st"
  by (simp add: Store_open_def case_prod_beta)

lemma Store_new_currDir: "currDir (fst (Store_new dir d)) = dir"
  by (simp add: Store_new_def Store_init_def ofstream_new_def Store_open_currDir case_prod_beta
      split: option.splits)

text \<open>
  C5, as stated (the first sequence number of a run is taken from the largest one on
  disk, so no file name is used twice), fails: with \<^verbatim>\<open>store_1.txt\<close> and \<^verbatim>\<open>store_2.txt\<close>
  left by an earlier run, the constructor counts from 1 again and opens \<^verbatim>\<open>store_1.txt\<close>,
  and the next segment it creates is \<^verbatim>\<open>store_2.txt\<close>.
\<close>

theorem startup_ignores_segments_on_disk:
  "(let d = empty_disk\<lparr>files := [''store_1.txt'' \<mapsto> ''1,a'' @ [DELIMITER],
                                    ''store_2.txt'' \<mapsto> ''2,b'' @ [DELIMITER]]\<rparr>;
        (e, d') = StorageEngine_new ''store'' d;
        (e', d'') = StorageEngine_createStore e d'
    in files d ''store_2.txt'' \<noteq> None \<and>
       totalFiles e = 1 \<and> map currDir (activeStores e) = [''store_1.txt''] \<and>
       totalFiles e' = 2 \<and> map currDir (activeStores e') = [''store_2.txt'', ''store_1.txt''])"
  by (simp add: model_defs)

text \<open>
  C5, amended: whatever is on disk, the constructor leaves the counter at 1 and its one
  segment is \<^verbatim>\<open><prefix>_1.txt\<close>; every segment created later adds one to the counter
  (as a \<^verbatim>\<open>size_t\<close>) and takes its name from the new count.
\<close>

theorem sequence_numbers_from_counter:
  "totalFiles (fst (StorageEngine_new prefix d)) = 1 \<and>
   map currDir (activeStores (fst (StorageEngine_new prefix d))) = [prefix @ ''_1.txt''] \<and>
   totalFiles (fst (StorageEngine_createStore e d)) = u64_add (totalFiles e) 1 \<and>
   map currDir (activeStores (fst (StorageEngine_createStore e d))) =
     (prefixFileName e @ ''_'' @ to_string_u (u64_add (totalFiles e) 1) @ ''.txt'')
       # map currDir (activeStores e)"
proof -
  have one: "u64_add 0 (Suc 0) = Suc 0" by (simp add: u64_add_def U64_def)
  have str: "to_string_u (Suc 0) = ''1''" by (simp add: to_string_u.simps digit_char_def)
  have "totalFiles (fst (StorageEngine_new prefix d)) = 1"
    by (simp add: StorageEngine_new_def StorageEngine_init_def StorageEngine_createStore_def
        Let_def case_prod_beta one)
  moreover have "map currDir (activeStores (fst (StorageEngine_new prefix d))) = [prefix @ ''_1.txt'']"
    by (simp add: StorageEngine_new_def StorageEngine_init_def StorageEngine_createStore_def
        Let_def case_prod_beta one str Store_new_currDir)
  moreover have "totalFiles (fst (StorageEngine_createStore e d)) = u64_add (totalFiles e) 1"
    by (simp add: StorageEngine_createStore_def Let_def case_prod_beta)
  moreover have "map currDir (activeStores (fst (StorageEngine_createStore e d))) =
     (prefixFileName e @ ''_'' @ to_string_u (u64_add (totalFiles e) 1) @ ''.txt'')
       # map currDir (activeStores e)"
    by (simp add: StorageEngine_createStore_def Let_def case_prod_beta Store_new_currDir)
  ultimately show ?thesis by blast
qed

section \<open>What \<^verbatim>\<open>set\<close> reports\<close>

text \<open>
  C4, as stated (an append returns true only if the write and the flush succeeded, and
  leaves cursor and index alone when it fails), fails: on a disk that refuses every
  write, \<^verbatim>\<open>set\<close> on an open store returns true in both programs, the file stays empty and
  the stream goes bad, and yet the cursor has advanced by four bytes and the index has an
  entry for the key.
\<close>

theorem append_reports_success_on_failed_write:
  "(let d = empty_disk\<lparr>can_write := (\<lambda>p. False)\<rparr>;
        (st, d1) = Store_new ''store_1.txt'' d;
        (st', d2, ok) = Store_set st d1 1 (''1,a'' @ [DELIMITER]) 4
    in is_open (store st) \<and> ok \<and> failed (store st') \<and> files d2 ''store_1.txt'' = Some [] \<and>
       totalBytes st' = 4 \<and> currByteOffset (cache st') = 4 \<and>
       entries (cache st') 1 = Some \<lparr>byteOffset = 0, byteSize = 4\<rparr>) \<and>
   (let d = empty_disk\<lparr>can_write := (\<lambda>p. False)\<rparr>;
        (st, d1) = Store1_new ''store.txt'' HashMap_new d;
        (st', d2, ok) = Store1_set st d1 1 ''a''
    in is_open (store1 st) \<and> ok \<and> failed (store1 st') \<and> files d2 ''store.txt'' = Some [] \<and>
       currByteOffset (cache1 st') = 4 \<and>
       entries (cache1 st') 1 = Some \<lparr>byteOffset = 0, byteSize = 4\<rparr>)"
  by (simp add: model_defs)

lemma Store_set_totalBytes:
  "totalBytes (fst (Store_set st d key data bytes)) =
     (if is_open (store st) then u64_add (totalBytes st) bytes else totalBytes st)"
  by (simp add: Store_set_def Store_set_index_def Store_set_flush_def Store_set_count_def
      Store_set_write_def Let_def case_prod_beta)

lemma Store1_set_cache:
  "cache1 (fst (Store1_set st d key val)) =
     (if is_open (store1 st)
      then HashMap_add (cache1 st) key (length (to_string key @ '','' @ val @ [DELIMITER]))
      else cache1 st)"
  by (simp add: Store1_set_def Let_def case_prod_beta)

text \<open>
  C4, amended: in both programs \<^verbatim>\<open>set\<close> returns false exactly when its output stream is
  not open, and then store and disk are returned as they were; when the stream is open
  it returns true and advances cursor and index by the record, whatever became of the
  write and the flush.
\<close>

theorem append_fails_only_when_closed:
  "(snd (snd (Store_set st d key data bytes)) \<longleftrightarrow> is_open (store st)) \<and>
   (\<not> is_open (store st) \<longrightarrow> Store_set st d key data bytes = (st, d, False)) \<and>
   (is_open (store st) \<longrightarrow>
      cache (fst (Store_set st d key data bytes)) = HashMap_add (cache st) key bytes \<and>
      totalBytes (fst (Store_set st d key data bytes)) = u64_add (totalBytes st) bytes) \<and>
   (snd (snd (Store1_set st1 d key val)) \<longleftrightarrow> is_open (store1 st1)) \<and>
   (\<not> is_open (store1 st1) \<longrightarrow> Store1_set st1 d key val = (st1, d, False)) \<and>
   (is_open (store1 st1) \<longrightarrow>
      cache1 (fst (Store1_set st1 d key val)) =
        HashMap_add (cache1 st1) key (length (to_string key @ '','' @ val @ [DELIMITER])))"
proof (intro conjI impI)
  show "snd (snd (Store_set st d key data bytes)) \<longleftrightarrow> is_open (store st)"
    by (simp add: Store_set_ok)
  show "snd (snd (Store1_set st1 d key val)) \<longleftrightarrow> is_open (store1 st1)"
    by (simp add: Store1_set_def Let_def case_prod_beta)
next
  assume "\<not> is_open (store st)"
  then show "Store_set st d key data bytes = (st, d, False)" by (simp add: Store_set_def)
next
  assume "\<not> is_open (store1 st1)"
  then show "Store1_set st1 d key val = (st1, d, False)" by (simp add: Store1_set_def)
next
  assume "is_open (store st)"
  then show "cache (fst (Store_set st d key data bytes)) = HashMap_add (cache st) key bytes"
    and "totalBytes (fst (Store_set st d key data bytes)) = u64_add (totalBytes st) bytes"
    by (simp_all add: Store_set_cache Store_set_totalBytes)
next
  assume "is_open (store1 st1)"
  then show "cache1 (fst (Store1_set st1 d key val)) =
        HashMap_add (cache1 st1) key (length (to_string key @ '','' @ val @ [DELIMITER]))"
    by (simp add: Store1_set_cache)
qed

theorem append_fails_only_when_closed_witness:
  "(let d = empty_disk\<lparr>can_open := (\<lambda>p. False)\<rparr>;
        st = fst (Store_new ''store_1.txt'' d);
        st1 = fst (Store1_new ''store.txt'' HashMap_new d)
    in \<not> is_open (store st) \<and> Store_set st d 1 (''1,a'' @ [DELIMITER]) 4 = (st, d, False) \<and>
       \<not> is_open (store1 st1) \<and> Store1_set st1 d 1 ''a'' = (st1, d, False)) \<and>
   (let st = fst (Store_new ''store_1.txt'' empty_disk);
        d = snd (Store_new ''store_1.txt'' empty_disk);
        st1 = fst (Store1_new ''store.txt'' HashMap_new empty_disk);
        d1 = snd (Store1_new ''store.txt'' HashMap_new empty_disk)
    in is_open (store st) \<and> snd (snd (Store_set st d 1 (''1,a'' @ [DELIMITER]) 4)) \<and>
       totalBytes (fst (Store_set st d 1 (''1,a'' @ [DELIMITER]) 4)) = 4 \<and>
       is_open (store1 st1) \<and> snd (snd (Store1_set st1 d1 1 ''a'')) \<and>
       currByteOffset (cache1 (fst (Store1_set st1 d1 1 ''a''))) = 4)"
proof -
  let ?dc = "empty_disk\<lparr>can_open := (\<lambda>p. False)\<rparr>"
  let ?sc = "fst (Store_new ''store_1.txt'' ?dc)"
  let ?sc1 = "fst (Store1_new ''store.txt'' HashMap_new ?dc)"
  let ?so = "fst (Store_new ''store_1.txt'' empty_disk)"
  let ?do = "snd (Store_new ''store_1.txt'' empty_disk)"
  let ?so1 = "fst (Store1_new ''store.txt'' HashMap_new empty_disk)"
  let ?do1 = "snd (Store1_new ''store.txt'' HashMap_new empty_disk)"
  have c: "\<not> is_open (store ?sc)" "\<not> is_open (store1 ?sc1)" by (simp_all add: model_defs)
  have o: "is_open (store ?so)" "is_open (store1 ?so1)" by (simp_all add: model_defs)
  have t: "u64_add (totalBytes ?so) 4 = 4"
    "currByteOffset (HashMap_add (cache1 ?so1) 1 (length (to_string 1 @ '','' @ ''a'' @ [DELIMITER]))) = 4"
    by (simp_all add: model_defs)
  note A = append_fails_only_when_closed [where st = ?sc and ?st1.0 = ?sc1 and d = ?dc and key = 1
      and data = "''1,a'' @ [DELIMITER]" and bytes = 4 and val = "''a''"]
  note B = append_fails_only_when_closed [where st = ?so and d = ?do and key = 1
      and data = "''1,a'' @ [DELIMITER]" and bytes = 4]
  note C = append_fails_only_when_closed [where ?st1.0 = ?so1 and d = ?do1 and key = 1 and val = "''a''"]
  from A c have 1: "Store_set ?sc ?dc 1 (''1,a'' @ [DELIMITER]) 4 = (?sc, ?dc, False)"
    "Store1_set ?sc1 ?dc 1 ''a'' = (?sc1, ?dc, False)" by blast+
  from B o have 2: "snd (snd (Store_set ?so ?do 1 (''1,a'' @ [DELIMITER]) 4))"
    "totalBytes (fst (Store_set ?so ?do 1 (''1,a'' @ [DELIMITER]) 4)) = 4" using t by auto
  from C o have 3: "snd (snd (Store1_set ?so1 ?do1 1 ''a''))"
    "currByteOffset (cache1 (fst (Store1_set ?so1 ?do1 1 ''a''))) = 4" using t by auto
  show ?thesis unfolding Let_def using c o 1 2 3 by blast
qed


section \<open>The order of writing and indexing\<close>

lemma entries_on_disk_grow:
  "entries_on_disk h (Some c) \<Longrightarrow> entries_on_disk h (Some (c @ data))"
  by (fastforce simp: entries_on_disk_def)

lemma entries_on_disk_add:
  assumes "entries_on_disk h (Some c)" and "currByteOffset h \<le> length c"
  shows "entries_on_disk (HashMap_add h key (length data)) (Some (c @ data))"
  using assms by (fastforce simp: entries_on_disk_def HashMap_add_def)

lemma Store_set_trace_published:
  assumes r: "ready_to_append (store st) (currDir st) (cache st) d content"
    and b: "bytes = length data"
  shows "list_all (\<lambda>(st', d'). entries_on_disk (cache st') (files d' (currDir st')) \<and>
                     (cache st' = cache st \<or> files d' (currDir st') = Some (content @ data)))
           (Store_set_trace st d key data bytes) \<and>
         last (Store_set_trace st d key data bytes) =
           (fst (Store_set st d key data bytes), fst (snd (Store_set st d key data bytes))) \<and>
         snd (snd (Store_set st d key data bytes)) \<and>
         entries (cache (fst (Store_set st d key data bytes))) key =
           Some \<lparr>byteOffset = currByteOffset (cache st), byteSize = bytes\<rparr>"
proof -
  from r have o: "is_open (store st)" "\<not> failed (store st)" "buffer (store st) = []"
    "target (store st) = currDir st" "can_write d (currDir st)" "files d (currDir st) = Some content"
    and e: "entries_on_disk (cache st) (Some content)" and c: "currByteOffset (cache st) \<le> length content"
    by (simp_all add: ready_to_append_def)
  have k: "entries (HashMap_add (cache st) key (length data)) key =
      Some \<lparr>byteOffset = currByteOffset (cache st), byteSize = length data\<rparr>"
    by (simp add: HashMap_add_def)
  show ?thesis
    using o e b k entries_on_disk_grow [OF e, of data] entries_on_disk_add [OF e c, of key data]
    by (simp add: Store_set_trace_def Store_set_def Store_set_write_def Store_set_count_def
        Store_set_flush_def Store_set_index_def ofstream_put_def ofstream_flush_def Let_def)
qed

lemma Store1_set_trace_published:
  assumes r: "ready_to_append (store1 st) (currDir1 st) (cache1 st) d content"
    and b: "data = to_string key @ '','' @ val @ [DELIMITER]"
  shows "list_all (\<lambda>(st', d'). entries_on_disk (cache1 st') (files d' (currDir1 st')) \<and>
                     (cache1 st' = cache1 st \<or> files d' (currDir1 st') = Some (content @ data)))
           (Store1_set_trace st d key val) \<and>
         last (Store1_set_trace st d key val) =
           (fst (Store1_set st d key val), fst (snd (Store1_set st d key val))) \<and>
         snd (snd (Store1_set st d key val)) \<and>
         entries (cache1 (fst (Store1_set st d key val))) key =
           Some \<lparr>byteOffset = currByteOffset (cache1 st), byteSize = length data\<rparr>"
proof -
  from r have o: "is_open (store1 st)" "\<not> failed (store1 st)" "buffer (store1 st) = []"
    "target (store1 st) = currDir1 st" "can_write d (currDir1 st)" "files d (currDir1 st) = Some content"
    and e: "entries_on_disk (cache1 st) (Some content)" and c: "currByteOffset (cache1 st) \<le> length content"
    by (simp_all add: ready_to_append_def)
  have k: "entries (HashMap_add (cache1 st) key (length data)) key =
      Some \<lparr>byteOffset = currByteOffset (cache1 st), byteSize = length data\<rparr>"
    by (simp add: HashMap_add_def)
  show ?thesis
    using o e k entries_on_disk_grow [OF e, of data] entries_on_disk_add [OF e c, of key data]
    unfolding b
    by (simp add: Store1_set_trace_def Store1_set_def ofstream_put_def ofstream_flush_def Let_def)
qed

text \<open>
  C8 (during a successful append the entry enters the index only after the record's
  bytes were written and flushed; the index never holds an entry whose bytes are not on
  disk). For a store that is ready to append, in both programs: at each of the states
  \<^verbatim>\<open>set\<close> passes through, every index entry lies inside the bytes that are on disk, and
  the index differs from what it was on entry only where the file already ends with the
  new record; the last of these states is what \<^verbatim>\<open>set\<close> returns, together with true, and
  there the key is indexed at the old cursor with the record's length.
\<close>

theorem index_entry_published_after_flush:
  "(ready_to_append (store st) (currDir st) (cache st) d content \<longrightarrow>
      list_all (\<lambda>(st', d'). entries_on_disk (cache st') (files d' (currDir st')) \<and>
                  (cache st' = cache st \<or> files d' (currDir st') = Some (content @ data)))
        (Store_set_trace st d key data (length data)) \<and>
      last (Store_set_trace st d key data (length data)) =
        (fst (Store_set st d key data (length data)), fst (snd (Store_set st d key data (length data)))) \<and>
      snd (snd (Store_set st d key data (length data))) \<and>
      entries (cache (fst (Store_set st d key data (length data)))) key =
        Some \<lparr>byteOffset = currByteOffset (cache st), byteSize = length data\<rparr>) \<and>
   (ready_to_append (store1 st1) (currDir1 st1) (cache1 st1) d1 content1 \<longrightarrow>
      list_all (\<lambda>(st', d'). entries_on_disk (cache1 st') (files d' (currDir1 st')) \<and>
                  (cache1 st' = cache1 st1 \<or>
                   files d' (currDir1 st') = Some (content1 @ to_string key @ '','' @ val @ [DELIMITER])))
        (Store1_set_trace st1 d1 key val) \<and>
      last (Store1_set_trace st1 d1 key val) =
        (fst (Store1_set st1 d1 key val), fst (snd (Store1_set st1 d1 key val))) \<and>
      snd (snd (Store1_set st1 d1 key val)) \<and>
      entries (cache1 (fst (Store1_set st1 d1 key val))) key =
        Some \<lparr>byteOffset = currByteOffset (cache1 st1),
              byteSize = length (to_string key @ '','' @ val @ [DELIMITER])\<rparr>)"
  using Store_set_trace_published [of st d content "length data" data key]
    Store1_set_trace_published [of st1 d1 content1 "to_string key @ '','' @ val @ [DELIMITER]" key val]
  by blast

theorem index_entry_published_after_flush_witness:
  "(let st = fst (Store_new ''store_1.txt'' empty_disk);
        d = snd (Store_new ''store_1.txt'' empty_disk);
        data = ''1,a'' @ [DELIMITER]
    in ready_to_append (store st) (currDir st) (cache st) d [] \<and>
       list_all (\<lambda>(st', d'). entries_on_disk (cache st') (files d' (currDir st')) \<and>
                  (cache st' = cache st \<or> files d' (currDir st') = Some ([] @ data)))
        (Store_set_trace st d 1 data (length data)) \<and>
       entries (cache (fst (Store_set st d 1 data (length data)))) 1 =
        Some \<lparr>byteOffset = currByteOffset (cache st), byteSize = length data\<rparr>) \<and>
   (let st1 = fst (Store1_new ''store.txt'' HashMap_new empty_disk);
        d1 = snd (Store1_new ''store.txt'' HashMap_new empty_disk)
    in ready_to_append (store1 st1) (currDir1 st1) (cache1 st1) d1 [] \<and>
       list_all (\<lambda>(st', d'). entries_on_disk (cache1 st') (files d' (currDir1 st')) \<and>
                  (cache1 st' = cache1 st1 \<or>
                   files d' (currDir1 st') = Some ([] @ to_string 1 @ '','' @ ''a'' @ [DELIMITER])))
        (Store1_set_trace st1 d1 1 ''a''))"
proof -
  let ?st = "fst (Store_new ''store_1.txt'' empty_disk)"
  let ?d = "snd (Store_new ''store_1.txt'' empty_disk)"
  let ?st1 = "fst (Store1_new ''store.txt'' HashMap_new empty_disk)"
  let ?d1 = "snd (Store1_new ''store.txt'' HashMap_new empty_disk)"
  have r: "ready_to_append (store ?st) (currDir ?st) (cache ?st) ?d []"
    by (simp add: ready_to_append_def entries_on_disk_def model_defs)
  have r1: "ready_to_append (store1 ?st1) (currDir1 ?st1) (cache1 ?st1) ?d1 []"
    by (simp add: ready_to_append_def entries_on_disk_def model_defs)
  note T = index_entry_published_after_flush [where st = ?st and d = ?d and content = "[]"
      and data = "''1,a'' @ [DELIMITER]" and key = 1 and ?st1.0 = ?st1 and ?d1.0 = ?d1
      and ?content1.0 = "[]" and val = "''a''"]
  show ?thesis unfolding Let_def using T r r1 by blast
qed


section \<open>Replay and records it cannot read\<close>

lemma replay_Nil: "replay [] pos h off = (h, off)"
  by (subst replay.simps) (simp add: getline_def)

lemma replay_empty_record: "replay (DELIMITER # rest) pos h off = replay rest (pos + 1) h off"
  by (subst replay.simps) (simp add: getline_def)

lemma replay_skip:
  assumes "data \<noteq> []" and "DELIMITER \<notin> set data" and "record_key data = None"
  shows "replay (data @ DELIMITER # rest) pos h off =
         replay rest (pos + length data + 1) h (tellg (pos + length data + 1) False)"
  using assms
  by (subst replay.simps) (auto simp: getline_split record_key_def Let_def split: option.splits)

lemma replay_record:
  assumes "DELIMITER \<notin> set data" and "record_key data = Some k"
  shows "replay (data @ DELIMITER # rest) pos h off =
         replay rest (pos + length data + 1)
           (HashMap_add h k (u64_sub (tellg (pos + length data + 1) False) (tellg pos False)))
           (u64_add off (u64_sub (tellg (pos + length data + 1) False) (tellg pos False)))"
proof -
  from assms(2) have "data \<noteq> []" by (auto simp: record_key_def)
  with assms show ?thesis
    by (subst replay.simps) (auto simp: getline_split record_key_def Let_def split: option.splits)
qed

lemma replay_final_skip:
  assumes "data \<noteq> []" and "DELIMITER \<notin> set data" and "record_key data = None"
  shows "replay data pos h off = (h, TELLG_FAILED)"
  using assms
  by (subst replay.simps) (auto simp: getline_final record_key_def Let_def tellg_def split: option.splits)

lemma replay_final_record:
  assumes "DELIMITER \<notin> set data" and "record_key data = Some k"
  shows "replay data pos h off =
         (HashMap_add h k (u64_sub TELLG_FAILED (tellg pos False)),
          u64_add off (u64_sub TELLG_FAILED (tellg pos False)))"
proof -
  from assms(2) have "data \<noteq> []" by (auto simp: record_key_def)
  with assms show ?thesis
    by (subst replay.simps) (auto simp: getline_final record_key_def Let_def tellg_def split: option.splits)
qed

lemma Store_new_files:
  assumes "files d dir = Some content"
  shows "files (snd (Store_new dir d)) = files d"
proof -
  have "(files d)(dir \<mapsto> content) = files d" using assms by (rule map_upd_triv)
  with assms show ?thesis
    by (simp add: Store_new_def Store_init_def Store_open_def ofstream_open_def ofstream_new_def
        case_prod_beta)
qed

lemma Store1_new_files:
  assumes "files d dir = Some content"
  shows "files (snd (Store1_new dir h d)) = files d"
proof -
  have "(files d)(dir \<mapsto> content) = files d" using assms by (rule map_upd_triv)
  with assms show ?thesis
    by (simp add: Store1_new_def Store1_init_def Store1_open_def ofstream_open_def ofstream_new_def
        case_prod_beta)
qed

text \<open>
  C3, as stated (replay stops at the first record that fails to decode and the file is
  cut back to the last valid boundary), fails: a file that begins with a record without
  a comma and goes on with the record of key 1 is replayed to the end in both programs.
  Key 1 is indexed, \<^verbatim>\<open>totalBytes\<close> is the whole length of 8, and the file keeps all its
  bytes.
\<close>

theorem replay_continues_after_bad_record:
  "(let content = ''bad'' @ [DELIMITER] @ ''1,a'' @ [DELIMITER];
        d = empty_disk\<lparr>files := [''store_1.txt'' \<mapsto> content]\<rparr>;
        (st, d') = Store_new ''store_1.txt'' d;
        (st1, d1) = Store1_new ''store_1.txt'' HashMap_new d
    in record_key ''bad'' = None \<and>
       entries (cache st) 1 = Some \<lparr>byteOffset = 0, byteSize = 4\<rparr> \<and> totalBytes st = 8 \<and>
       files d' ''store_1.txt'' = Some content \<and>
       entries (cache1 st1) 1 = Some \<lparr>byteOffset = 0, byteSize = 4\<rparr> \<and>
       files d1 ''store_1.txt'' = Some content)"
  by (simp add: model_defs record_key_def)

text \<open>
  C3, amended: a record the loop cannot read (no comma, or a key that does not parse) is
  skipped, index untouched, and replay goes on with the record after it; and
  constructing a store on an existing file, in either program, leaves every file as it
  was, so nothing is cut off.
\<close>

theorem replay_skips_bad_record_keeps_file:
  "(data \<noteq> [] \<and> DELIMITER \<notin> set data \<and> record_key data = None \<longrightarrow>
      replay (data @ DELIMITER # rest) pos h off =
      replay rest (pos + length data + 1) h (tellg (pos + length data + 1) False)) \<and>
   (files d dir = Some content \<longrightarrow>
      files (snd (Store_new dir d)) = files d \<and> files (snd (Store1_new dir h d)) = files d)"
  using replay_skip [of data rest pos h off] Store_new_files [of d dir content]
    Store1_new_files [of d dir content h]
  by blast

theorem replay_skips_bad_record_keeps_file_witness:
  "replay (''bad'' @ DELIMITER # ''1,a'' @ [DELIMITER]) 0 HashMap_new 0 =
     replay (''1,a'' @ [DELIMITER]) 4 HashMap_new 4 \<and>
   files (snd (Store_new ''store_1.txt''
            (empty_disk\<lparr>files := [''store_1.txt'' \<mapsto> ''bad'' @ DELIMITER # ''1,a'' @ [DELIMITER]]\<rparr>))) =
     [''store_1.txt'' \<mapsto> ''bad'' @ DELIMITER # ''1,a'' @ [DELIMITER]]"
proof -
  let ?content = "''bad'' @ DELIMITER # ''1,a'' @ [DELIMITER]"
  let ?d = "empty_disk\<lparr>files := [''store_1.txt'' \<mapsto> ?content]\<rparr>"
  note T = replay_skips_bad_record_keeps_file [where data = "''bad''" and rest = "''1,a'' @ [DELIMITER]"
      and pos = 0 and h = HashMap_new and off = 0 and d = ?d
      and dir = "''store_1.txt''" and content = ?content]
  have a: "''bad'' \<noteq> [] \<and> DELIMITER \<notin> set ''bad'' \<and> record_key ''bad'' = None"
    by (simp add: record_key_def DELIMITER_def)
  have n: "(0::nat) + length ''bad'' + 1 = 4" by simp
  have t: "tellg 4 False = 4" by (simp add: tellg_def U64_def)
  have f: "files ?d ''store_1.txt'' = Some ?content" by simp
  have "replay ?content 0 HashMap_new 0 =
      replay (''1,a'' @ [DELIMITER]) (0 + length ''bad'' + 1) HashMap_new
        (tellg (0 + length ''bad'' + 1) False)"
    using T a by blast
  then have "replay ?content 0 HashMap_new 0 = replay (''1,a'' @ [DELIMITER]) 4 HashMap_new 4"
    unfolding n t .
  moreover have "files (snd (Store_new ''store_1.txt'' ?d)) = files ?d"
    using T f by blast
  then have "files (snd (Store_new ''store_1.txt'' ?d)) = [''store_1.txt'' \<mapsto> ?content]"
    by (simp add: empty_disk_def)
  ultimately show ?thesis by blast
qed

section \<open>A delimiter inside a value\<close>

text \<open>
  C9 (the framing is not binary-safe: for some value that contains the delimiter byte,
  after a successful put neither reading the key back nor replaying the file gives the
  record that was written). The value is \<^verbatim>\<open>a\<close>, the delimiter, \<^verbatim>\<open>b\<close>, put under key 1 into
  a fresh engine: the put returns true and the whole frame of six bytes is on disk and
  indexed, but reading the key back gives \<^verbatim>\<open>1,a\<close>, and a replay of the file indexes key 1
  with four bytes and leaves its cursor at 4.
\<close>

theorem delimiter_in_value_breaks_framing:
  "\<exists>val. DELIMITER \<in> set val \<and>
     (case StorageEngine_set (fst (StorageEngine_new ''store'' empty_disk))
             (snd (StorageEngine_new ''store'' empty_disk)) 1 val of
        None \<Rightarrow> False
      | Some (e', d', ok) \<Rightarrow>
          ok \<and> files d' ''store_1.txt'' = Some (''1,'' @ val @ [DELIMITER]) \<and>
          map (\<lambda>st. (entries (cache st) 1, currByteOffset (cache st))) (activeStores e') =
            [(Some \<lparr>byteOffset = 0, byteSize = 6\<rparr>, 6)] \<and>
          snd (StorageEngine_get e' d' 1) = Some ''1,a'' \<and> ''1,a'' \<noteq> ''1,'' @ val \<and>
          (let (h, off) = replay (''1,'' @ val @ [DELIMITER]) 0 HashMap_new 0
           in entries h 1 = Some \<lparr>byteOffset = 0, byteSize = 4\<rparr> \<and> currByteOffset h = 4))"
  by (rule exI [of _ "''a'' @ [DELIMITER] @ ''b''"]) (simp add: model_defs)


section \<open>Offsets after a skipped record\<close>

lemma boundary_split:
  assumes "boundary A" and "A \<noteq> []"
  obtains data A' where "A = data @ DELIMITER # A'" and "DELIMITER \<notin> set data" and "boundary A'"
proof -
  from assms have "DELIMITER \<in> set A" by (auto simp: boundary_def dest: last_in_set)
  then obtain data A' where s: "A = data @ DELIMITER # A'" and n: "DELIMITER \<notin> set data"
    by (auto dest: split_list_first)
  have "boundary A'" using assms s by (cases "A' = []") (auto simp: boundary_def)
  with s n show ?thesis by (rule that)
qed

lemma replay_step_cases:
  assumes "DELIMITER \<notin> set data"
  obtains (empty) "data = []" "\<And>rest pos h off. replay (data @ DELIMITER # rest) pos h off = replay rest (pos + 1) h off"
  | (skip) "data \<noteq> []" "record_key data = None"
  | (indexed) k where "data \<noteq> []" "record_key data = Some k"
  using replay_empty_record by (cases "data = []"; cases "record_key data") auto

lemma replay_append:
  "boundary A \<Longrightarrow>
   replay (A @ B) pos h off = replay B (pos + length A) (fst (replay A pos h off)) (snd (replay A pos h off))"
proof (induction "length A" arbitrary: A pos h off rule: less_induct)
  case less
  show ?case
  proof (cases "A = []")
    case True
    then show ?thesis by (simp add: replay_Nil)
  next
    case False
    with less.prems obtain data A' where A: "A = data @ DELIMITER # A'"
      and n: "DELIMITER \<notin> set data" and b: "boundary A'"
      by (rule boundary_split)
    have len: "length A' < length A" using A by simp
    note IH = less.hyps [OF len b]
    have p: "pos + length data + 1 + length A' = pos + length A" using A by simp
    from n show ?thesis
    proof (cases rule: replay_step_cases)
      case empty
      then show ?thesis using A IH [of "pos + 1" h off] p by (simp add: replay_empty_record add.assoc)
    next
      case skip
      then show ?thesis
        using A n IH [of "pos + length data + 1" h "tellg (pos + length data + 1) False"] p
        by (simp add: replay_skip add.assoc)
    next
      case (indexed k)
      then show ?thesis
        using A n p
          IH [of "pos + length data + 1"
            "HashMap_add h k (u64_sub (tellg (pos + length data + 1) False) (tellg pos False))"
            "u64_add off (u64_sub (tellg (pos + length data + 1) False) (tellg pos False))"]
        by (simp add: replay_record add.assoc)
    qed
  qed
qed

lemma HashMap_add_cursor: "currByteOffset (HashMap_add h k n) \<le> currByteOffset h + n"
  by (simp add: HashMap_add_def u64_add_def)

lemma replay_cursor_lags:
  "boundary A \<Longrightarrow> pos + length A < 2 ^ 63 \<Longrightarrow>
   currByteOffset (fst (replay A pos h off)) \<le> currByteOffset h + length A"
proof (induction "length A" arbitrary: A pos h off rule: less_induct)
  case less
  show ?case
  proof (cases "A = []")
    case True
    then show ?thesis by (simp add: replay_Nil)
  next
    case False
    with less.prems(1) obtain data A' where A: "A = data @ DELIMITER # A'"
      and n: "DELIMITER \<notin> set data" and b: "boundary A'"
      by (rule boundary_split)
    have len: "length A' < length A" using A by simp
    have bound: "pos + length data + 1 + length A' < 2 ^ 63" using A less.prems(2) by simp
    note IH = less.hyps [OF len b bound]
    from n show ?thesis
    proof (cases rule: replay_step_cases)
      case empty
      have "pos + 1 + length A' < 2 ^ 63" using bound by simp
      from less.hyps [OF len b this, of h off] empty A show ?thesis
        by (simp add: replay_empty_record)
    next
      case skip
      then show ?thesis
        using A n IH [of h "tellg (pos + length data + 1) False"] by (simp add: replay_skip)
    next
      case (indexed k)
      have sz: "u64_sub (tellg (pos + length data + 1) False) (tellg pos False) = length data + 1"
        using u64_sub_record [of pos "length data + 1"] bound by (simp add: add.assoc)
      let ?h = "HashMap_add h k (length data + 1)"
      have "currByteOffset (fst (replay A' (pos + length data + 1) ?h (u64_add off (length data + 1))))
          \<le> currByteOffset ?h + length A'"
        by (rule IH)
      also have "\<dots> \<le> currByteOffset h + (length data + 1) + length A'"
        using HashMap_add_cursor [of h k "length data + 1"] by simp
      finally show ?thesis using A n indexed sz by (simp add: replay_record)
    qed
  qed
qed


lemma read_up_to_delimiter:
  assumes "X \<noteq> []" and "last X = DELIMITER" and "c < length X"
  shows "fst (getline (drop c (X @ Z))) = takeWhile (\<lambda>b. b \<noteq> DELIMITER) (drop c (X @ Z))"
    and "c + length (takeWhile (\<lambda>b. b \<noteq> DELIMITER) (drop c (X @ Z))) < length X"
    and "(X @ Z) ! (c + length (takeWhile (\<lambda>b. b \<noteq> DELIMITER) (drop c (X @ Z)))) = DELIMITER"
proof -
  let ?Y = "drop c X"
  from assms have ne: "?Y \<noteq> []" and "last ?Y = DELIMITER" by simp_all
  then have "DELIMITER \<in> set ?Y" by (metis last_in_set)
  then obtain data Y' where Y: "?Y = data @ DELIMITER # Y'" and n: "DELIMITER \<notin> set data"
    by (auto dest: split_list_first)
  have d: "drop c (X @ Z) = data @ DELIMITER # (Y' @ Z)" using assms(3) Y by simp
  have tw: "takeWhile (\<lambda>b. b \<noteq> DELIMITER) (drop c (X @ Z)) = data"
    unfolding d using n by (subst takeWhile_append2) auto
  show "fst (getline (drop c (X @ Z))) = takeWhile (\<lambda>b. b \<noteq> DELIMITER) (drop c (X @ Z))"
    by (simp add: getline_def Let_def)
  have "length data < length ?Y" using Y by simp
  then have lt: "c + length data < length X" using assms(3) by simp
  then show "c + length (takeWhile (\<lambda>b. b \<noteq> DELIMITER) (drop c (X @ Z))) < length X"
    unfolding tw .
  have "(X @ Z) ! (c + length data) = drop c (X @ Z) ! length data"
    by (rule nth_drop [symmetric]) (use assms(3) in simp)
  also have "\<dots> = DELIMITER" unfolding d by simp
  finally show "(X @ Z) ! (c + length (takeWhile (\<lambda>b. b \<noteq> DELIMITER) (drop c (X @ Z)))) = DELIMITER"
    unfolding tw .
qed

lemma Store_new_cache:
  "files d dir = Some content \<Longrightarrow> cache (fst (Store_new dir d)) = fst (replay content 0 HashMap_new 0)"
  by (simp add: Store_new_def Store_init_def ofstream_new_def Store_open_cache case_prod_beta)

lemma HashMap_new_cursor: "currByteOffset HashMap_new = 0"
  by (simp add: HashMap_new_def)

lemma replay_indexes_behind:
  assumes content: "content = pre @ bad @ DELIMITER # mid @ rec @ tail"
    and bp: "boundary pre" and bm: "boundary mid"
    and bad: "bad \<noteq> []" "DELIMITER \<notin> set bad" "record_key bad = None"
    and rec: "DELIMITER \<notin> set rec" "record_key rec = Some k"
    and tail: "tail = [] \<or> (hd tail = DELIMITER \<and> never_indexes (tl tail) k)"
    and small: "length content < 2 ^ 63"
  shows "\<exists>c sz. entries (fst (replay content 0 HashMap_new 0)) k = Some \<lparr>byteOffset = c, byteSize = sz\<rparr> \<and>
           0 < sz \<and> c \<le> length pre + length mid"
proof -
  let ?h1 = "fst (replay pre 0 HashMap_new 0)"
  let ?o1 = "snd (replay pre 0 HashMap_new 0)"
  let ?p2 = "length pre + length bad + 1"
  let ?o2 = "tellg ?p2 False"
  let ?h2 = "fst (replay mid ?p2 ?h1 ?o2)"
  let ?o3 = "snd (replay mid ?p2 ?h1 ?o2)"
  let ?P = "?p2 + length mid"
  let ?c = "currByteOffset ?h2"
  have c1: "currByteOffset ?h1 \<le> length pre"
    using replay_cursor_lags [OF bp, of 0 HashMap_new 0] small content
    by (simp add: HashMap_new_cursor)
  have c2: "?c \<le> length pre + length mid"
    using replay_cursor_lags [OF bm, of ?p2 ?h1 ?o2] small content c1 by simp
  have "replay content 0 HashMap_new 0 = replay (bad @ DELIMITER # (mid @ rec @ tail)) (length pre) ?h1 ?o1"
    unfolding content using replay_append [OF bp, of "bad @ DELIMITER # mid @ rec @ tail" 0 HashMap_new 0]
    by simp
  also have "\<dots> = replay (mid @ rec @ tail) ?p2 ?h1 ?o2"
    using bad by (simp add: replay_skip)
  also have "\<dots> = replay (rec @ tail) ?P ?h2 ?o3"
    using replay_append [OF bm, of "rec @ tail" ?p2 ?h1 ?o2] by simp
  finally have r: "replay content 0 HashMap_new 0 = replay (rec @ tail) ?P ?h2 ?o3" .
  have Pb: "?P + length rec + length tail < 2 ^ 63" using small content by simp
  from tail show ?thesis
  proof
    assume t: "tail = []"
    have "0 < u64_sub TELLG_FAILED (tellg ?P False)"
      using u64_sub_eof_pos [of ?P 0] Pb by (simp add: tellg_def)
    moreover have "entries (fst (replay content 0 HashMap_new 0)) k =
        Some \<lparr>byteOffset = ?c, byteSize = u64_sub TELLG_FAILED (tellg ?P False)\<rparr>"
      unfolding r t using rec by (simp add: replay_final_record HashMap_add_def)
    ultimately show ?thesis using c2 by blast
  next
    assume "hd tail = DELIMITER \<and> never_indexes (tl tail) k"
    then have ni: "never_indexes (tl tail) k" and hd: "hd tail = DELIMITER" by simp_all
    show ?thesis
    proof (cases tail)
      case Nil
      have "0 < u64_sub TELLG_FAILED (tellg ?P False)"
        using u64_sub_eof_pos [of ?P 0] Pb by (simp add: tellg_def)
      moreover have "entries (fst (replay content 0 HashMap_new 0)) k =
          Some \<lparr>byteOffset = ?c, byteSize = u64_sub TELLG_FAILED (tellg ?P False)\<rparr>"
        unfolding r Nil using rec by (simp add: replay_final_record HashMap_add_def)
      ultimately show ?thesis using c2 by blast
    next
      case (Cons x post)
      with hd have t: "tail = DELIMITER # post" by simp
      let ?N = "u64_sub (tellg (?P + length rec + 1) False) (tellg ?P False)"
      have "?P + (length rec + 1) < 2 ^ 63" using Pb t by simp
      then have "u64_sub (tellg (?P + (length rec + 1)) False) (tellg ?P False) = length rec + 1"
        by (intro u64_sub_record) simp_all
      then have sz: "0 < ?N" by (simp add: add.assoc)
      have step: "replay (rec @ DELIMITER # post) ?P ?h2 ?o3 =
          replay post (?P + length rec + 1) (HashMap_add ?h2 k ?N) (u64_add ?o3 ?N)"
        by (rule replay_record [OF rec])
      have keep: "entries (fst (replay post (?P + length rec + 1) (HashMap_add ?h2 k ?N) (u64_add ?o3 ?N))) k =
          entries (HashMap_add ?h2 k ?N) k"
        using ni t unfolding never_indexes_def by simp
      have "entries (fst (replay content 0 HashMap_new 0)) k = entries (HashMap_add ?h2 k ?N) k"
        unfolding r t step by (rule keep)
      also have "\<dots> = Some \<lparr>byteOffset = ?c, byteSize = ?N\<rparr>"
        by (simp add: HashMap_add_def)
      finally show ?thesis using c2 sz by blast
    qed
  qed
qed

lemma replay_record_sized:
  assumes "DELIMITER \<notin> set data" and "record_key data = Some k"
    and "n = length data + 1" and "p = pos + n" and "p < 2 ^ 63"
  shows "replay (data @ DELIMITER # rest) pos h off =
         replay rest p (HashMap_add h k n) (u64_add off n)"
proof -
  have "u64_sub (tellg (pos + n) False) (tellg pos False) = n"
    using assms(3-5) by (intro u64_sub_record) simp_all
  then show ?thesis
    using replay_record [OF assms(1,2), of rest pos h off] assms(3,4) by (simp add: add.assoc)
qed

lemma replay_skip_sized:
  assumes "data \<noteq> []" and "DELIMITER \<notin> set data" and "record_key data = None"
    and "p = pos + length data + 1"
  shows "replay (data @ DELIMITER # rest) pos h off = replay rest p h (tellg p False)"
  using replay_skip [OF assms(1-3), of rest pos h off] assms(4) by simp

lemma Store_get_replayed:
  assumes "files d dir = Some content"
    and "entries (fst (replay content 0 HashMap_new 0)) k = Some \<lparr>byteOffset = c, byteSize = sz\<rparr>"
    and "0 < sz" and "c < 2 ^ 63"
  shows "Store_get (fst (Store_new dir d)) (snd (Store_new dir d)) k out =
         (True, fst (getline (drop c content)))"
proof -
  have fs: "files (snd (Store_new dir d)) dir = Some content"
    using Store_new_files [OF assms(1)] assms(1) by simp
  show ?thesis using assms(2-4) fs
    by (simp add: Store_get_def HashMap_get_def Store_new_cache [OF assms(1)] Store_new_currDir)
qed

text \<open>
  C7, as stated (after a skipped record, a read of a later key returns bytes belonging
  to a different record), fails: in a file of five records whose second one has no comma,
  the record of key 9 starts at position 13 and is indexed at offset 8, which is the
  delimiter that ends the skipped record. \<^verbatim>\<open>get\<close> of key 9 returns true and leaves the
  buffer empty: it returns no byte of any record.
\<close>

theorem read_after_skip_returns_no_bytes:
  "(let content = ''7,x'' @ [DELIMITER] @ ''junk'' @ DELIMITER # ''8,y'' @ [DELIMITER] @ ''9,z'' @
                    DELIMITER # ''5,w'' @ [DELIMITER];
        d = empty_disk\<lparr>files := [''store_1.txt'' \<mapsto> content]\<rparr>
    in record_key ''junk'' = None \<and> record_key ''9,z'' = Some 9 \<and>
       take 4 (drop 13 content) = ''9,z'' @ [DELIMITER] \<and>
       entries (cache (fst (Store_new ''store_1.txt'' d))) 9 = Some \<lparr>byteOffset = 8, byteSize = 4\<rparr> \<and>
       Store_get (fst (Store_new ''store_1.txt'' d)) (snd (Store_new ''store_1.txt'' d)) 9 ''unset'' =
         (True, []))"
proof -
  let ?r4 = "''5,w'' @ DELIMITER # []"
  let ?r3 = "''9,z'' @ DELIMITER # ?r4"
  let ?r2 = "''8,y'' @ DELIMITER # ?r3"
  let ?r1 = "''junk'' @ DELIMITER # ?r2"
  let ?content = "''7,x'' @ DELIMITER # ?r1"
  let ?d = "empty_disk\<lparr>files := [''store_1.txt'' \<mapsto> ?content]\<rparr>"
  let ?h1 = "HashMap_add HashMap_new 7 4"
  let ?h2 = "HashMap_add ?h1 8 4"
  let ?h3 = "HashMap_add ?h2 9 4"
  let ?h4 = "HashMap_add ?h3 5 4"
  have nd: "DELIMITER \<notin> set ''7,x''" "DELIMITER \<notin> set ''junk''" "DELIMITER \<notin> set ''8,y''"
    "DELIMITER \<notin> set ''9,z''" "DELIMITER \<notin> set ''5,w''"
    by (simp_all add: DELIMITER_def)
  have k: "record_key ''7,x'' = Some 7" "record_key ''8,y'' = Some 8" "record_key ''9,z'' = Some 9"
    "record_key ''5,w'' = Some 5"
    by (simp_all add: record_key_def model_defs)
  have bad: "''junk'' \<noteq> []" "record_key ''junk'' = None"
    by (simp_all add: record_key_def)
  have "replay ?content 0 HashMap_new 0 = replay ?r1 4 ?h1 (u64_add 0 4)"
    by (rule replay_record_sized [OF nd(1) k(1)]) simp_all
  also have "\<dots> = replay ?r2 9 ?h1 (tellg 9 False)"
    by (rule replay_skip_sized [OF bad(1) nd(2) bad(2)]) simp
  also have "\<dots> = replay ?r3 13 ?h2 (u64_add (tellg 9 False) 4)"
    by (rule replay_record_sized [OF nd(3) k(2)]) simp_all
  also have "\<dots> = replay ?r4 17 ?h3 (u64_add (u64_add (tellg 9 False) 4) 4)"
    by (rule replay_record_sized [OF nd(4) k(3)]) simp_all
  also have "\<dots> = replay [] 21 ?h4 (u64_add (u64_add (u64_add (tellg 9 False) 4) 4) 4)"
    by (rule replay_record_sized [OF nd(5) k(4)]) simp_all
  finally have r: "fst (replay ?content 0 HashMap_new 0) = ?h4" by (simp add: replay_Nil)
  have e: "entries (fst (replay ?content 0 HashMap_new 0)) 9 = Some \<lparr>byteOffset = 8, byteSize = 4\<rparr>"
    unfolding r by (simp add: HashMap_add_def HashMap_new_def u64_add_def U64_def)
  have f: "files ?d ''store_1.txt'' = Some ?content" by simp
  have g: "fst (getline (drop 8 ?content)) = []" by (simp add: getline_def DELIMITER_def)
  have "Store_get (fst (Store_new ''store_1.txt'' ?d)) (snd (Store_new ''store_1.txt'' ?d)) 9 ''unset'' =
      (True, [])"
    using Store_get_replayed [OF f e, of "''unset''"] g by simp
  moreover have "entries (cache (fst (Store_new ''store_1.txt'' ?d))) 9 =
      Some \<lparr>byteOffset = 8, byteSize = 4\<rparr>"
    unfolding Store_new_cache [OF f] by (rule e)
  moreover have "take 4 (drop 13 ?content) = ''9,z'' @ [DELIMITER]" by simp
  ultimately show ?thesis using bad(2) k(3) by (simp add: Let_def)
qed

text \<open>
  C7, amended: after a skipped record, later records are indexed at offsets below their
  true positions, and a read returns the bytes from the recorded offset up to the next
  delimiter, all of which lie before the record. The file is cut as
  \<open>pre @ bad @ DELIMITER # mid @ rec @ tail\<close>: \<open>pre\<close> and \<open>mid\<close> are whole records of any
  kind, \<open>bad\<close> is a record the loop skips, \<open>rec\<close> is a record with key \<open>k\<close>, and after it
  the file ends or goes on with records that do not index \<open>k\<close> again. Then the index
  cursor after \<open>bad\<close> is at most the length of \<open>pre\<close>, the replayed store indexes \<open>k\<close>
  at an offset below the position where \<open>rec\<close> starts, and \<^verbatim>\<open>get\<close> returns true with
  exactly the bytes from that offset up to the first delimiter at or after it. That
  delimiter lies before the position of \<open>rec\<close>, so the bytes read are bytes of earlier
  records, and there are none when the offset itself holds a delimiter.
\<close>

theorem replay_after_skip_indexes_too_early:
  assumes content: "content = pre @ bad @ DELIMITER # mid @ rec @ tail"
    and bp: "boundary pre" and bm: "boundary mid"
    and bad: "bad \<noteq> []" "DELIMITER \<notin> set bad" "record_key bad = None"
    and rec: "DELIMITER \<notin> set rec" "record_key rec = Some k"
    and tail: "tail = [] \<or> (hd tail = DELIMITER \<and> never_indexes (tl tail) k)"
    and small: "length content < 2 ^ 63"
    and ondisk: "files d dir = Some content"
  shows "currByteOffset (fst (replay (pre @ bad @ [DELIMITER]) 0 HashMap_new 0)) \<le> length pre \<and>
         (\<exists>md. entries (cache (fst (Store_new dir d))) k = Some md \<and>
            byteOffset md < length (pre @ bad @ DELIMITER # mid) \<and>
            Store_get (fst (Store_new dir d)) (snd (Store_new dir d)) k out =
              (True, takeWhile (\<lambda>b. b \<noteq> DELIMITER) (drop (byteOffset md) content)) \<and>
            byteOffset md + length (takeWhile (\<lambda>b. b \<noteq> DELIMITER) (drop (byteOffset md) content))
              < length (pre @ bad @ DELIMITER # mid) \<and>
            content ! (byteOffset md + length (takeWhile (\<lambda>b. b \<noteq> DELIMITER) (drop (byteOffset md) content)))
              = DELIMITER)"
proof -
  let ?X = "pre @ bad @ DELIMITER # mid"
  have "replay (pre @ bad @ [DELIMITER]) 0 HashMap_new 0 =
      replay (bad @ [DELIMITER]) (length pre) (fst (replay pre 0 HashMap_new 0)) (snd (replay pre 0 HashMap_new 0))"
    using replay_append [OF bp, of "bad @ [DELIMITER]" 0 HashMap_new 0] by simp
  then have "fst (replay (pre @ bad @ [DELIMITER]) 0 HashMap_new 0) = fst (replay pre 0 HashMap_new 0)"
    using bad by (simp add: replay_skip replay_Nil)
  moreover have "currByteOffset (fst (replay pre 0 HashMap_new 0)) \<le> length pre"
    using replay_cursor_lags [OF bp, of 0 HashMap_new 0] small content
    by (simp add: HashMap_new_cursor)
  ultimately have first: "currByteOffset (fst (replay (pre @ bad @ [DELIMITER]) 0 HashMap_new 0)) \<le> length pre"
    by simp
  from replay_indexes_behind [OF content bp bm bad rec tail small]
  obtain c sz where e: "entries (fst (replay content 0 HashMap_new 0)) k = Some \<lparr>byteOffset = c, byteSize = sz\<rparr>"
    and sz: "0 < sz" and c: "c \<le> length pre + length mid" by blast
  let ?out = "takeWhile (\<lambda>b. b \<noteq> DELIMITER) (drop c content)"
  have cX: "c < length ?X" using c by simp
  have X: "?X \<noteq> []" "last ?X = DELIMITER" using bm by (auto simp: boundary_def)
  have cont: "content = ?X @ (rec @ tail)" using content by simp
  have n: "fst (getline (drop c content)) = ?out" "c + length ?out < length ?X"
    "content ! (c + length ?out) = DELIMITER"
    unfolding cont by (rule read_up_to_delimiter [OF X cX])+
  have c63: "c < 2 ^ 63" using cX small cont by simp
  have "Store_get (fst (Store_new dir d)) (snd (Store_new dir d)) k out = (True, ?out)"
    using Store_get_replayed [OF ondisk e sz c63, of out] n(1) by simp
  moreover have "entries (cache (fst (Store_new dir d))) k = Some \<lparr>byteOffset = c, byteSize = sz\<rparr>"
    using e by (simp add: Store_new_cache [OF ondisk])
  ultimately have "\<exists>md. entries (cache (fst (Store_new dir d))) k = Some md \<and>
            byteOffset md < length ?X \<and>
            Store_get (fst (Store_new dir d)) (snd (Store_new dir d)) k out =
              (True, takeWhile (\<lambda>b. b \<noteq> DELIMITER) (drop (byteOffset md) content)) \<and>
            byteOffset md + length (takeWhile (\<lambda>b. b \<noteq> DELIMITER) (drop (byteOffset md) content))
              < length ?X \<and>
            content ! (byteOffset md + length (takeWhile (\<lambda>b. b \<noteq> DELIMITER) (drop (byteOffset md) content)))
              = DELIMITER"
    using cX n(2,3) by (intro exI [of _ "\<lparr>byteOffset = c, byteSize = sz\<rparr>"]) simp
  with first show ?thesis by blast
qed

theorem replay_after_skip_indexes_too_early_witness:
  "(let content = ''7,x'' @ [DELIMITER] @ ''junk'' @ DELIMITER # ''9,z'' @ DELIMITER # ''5,w'' @ [DELIMITER];
        d = empty_disk\<lparr>files := [''store_1.txt'' \<mapsto> content]\<rparr>
    in record_key ''junk'' = None \<and> record_key ''9,z'' = Some 9 \<and>
       never_indexes (''5,w'' @ [DELIMITER]) 9 \<and>
       take 4 (drop 9 content) = ''9,z'' @ [DELIMITER] \<and>
       entries (cache (fst (Store_new ''store_1.txt'' d))) 9 = Some \<lparr>byteOffset = 4, byteSize = 4\<rparr> \<and>
       Store_get (fst (Store_new ''store_1.txt'' d)) (snd (Store_new ''store_1.txt'' d)) 9 [] =
         (True, ''junk'') \<and>
       content ! 8 = DELIMITER)"
proof -
  let ?pre = "''7,x'' @ [DELIMITER]"
  let ?mid = "[] :: string"
  let ?tail = "DELIMITER # ''5,w'' @ [DELIMITER]"
  let ?content = "?pre @ ''junk'' @ DELIMITER # ?mid @ ''9,z'' @ ?tail"
  let ?d = "empty_disk\<lparr>files := [''store_1.txt'' \<mapsto> ?content]\<rparr>"
  let ?st = "Store_new ''store_1.txt'' ?d"
  have b: "boundary ?pre" "boundary ?mid" by (simp_all add: boundary_def)
  have bad: "''junk'' \<noteq> []" "DELIMITER \<notin> set ''junk''" "record_key ''junk'' = None"
    by (simp_all add: record_key_def DELIMITER_def)
  have r: "DELIMITER \<notin> set ''9,z''" "record_key ''9,z'' = Some 9"
    by (simp_all add: record_key_def model_defs)
  have k5: "DELIMITER \<notin> set ''5,w''" "record_key ''5,w'' = Some 5"
    by (simp_all add: record_key_def model_defs)
  have k7: "DELIMITER \<notin> set ''7,x''" "record_key ''7,x'' = Some 7"
    by (simp_all add: record_key_def model_defs)
  have "entries (fst (replay (''5,w'' @ DELIMITER # []) p h off)) 9 = entries h 9" for p h off
    unfolding replay_record [OF k5] replay_Nil by (simp add: HashMap_add_def)
  then have ni: "never_indexes (''5,w'' @ [DELIMITER]) 9"
    unfolding never_indexes_def by simp
  have t: "?tail = [] \<or> (hd ?tail = DELIMITER \<and> never_indexes (tl ?tail) 9)"
    using ni by simp
  have small: "length ?content < 2 ^ 63" by simp
  have f: "files ?d ''store_1.txt'' = Some ?content" by simp
  let ?r3 = "''5,w'' @ DELIMITER # []"
  let ?r2 = "''9,z'' @ DELIMITER # ?r3"
  let ?r1 = "''junk'' @ DELIMITER # ?r2"
  let ?h1 = "HashMap_add HashMap_new 7 4"
  let ?h2 = "HashMap_add ?h1 9 4"
  let ?h3 = "HashMap_add ?h2 5 4"
  have c: "?content = ''7,x'' @ DELIMITER # ?r1" by simp
  have "replay (''7,x'' @ DELIMITER # ?r1) 0 HashMap_new 0 = replay ?r1 4 ?h1 (u64_add 0 4)"
    by (rule replay_record_sized [OF k7]) simp_all
  also have "\<dots> = replay ?r2 9 ?h1 (tellg 9 False)"
    by (rule replay_skip_sized [OF bad]) simp
  also have "\<dots> = replay ?r3 13 ?h2 (u64_add (tellg 9 False) 4)"
    by (rule replay_record_sized [OF r]) simp_all
  also have "\<dots> = replay [] 17 ?h3 (u64_add (u64_add (tellg 9 False) 4) 4)"
    by (rule replay_record_sized [OF k5]) simp_all
  finally have "fst (replay ?content 0 HashMap_new 0) = ?h3" unfolding c by (simp add: replay_Nil)
  then have "entries (fst (replay ?content 0 HashMap_new 0)) 9 = Some \<lparr>byteOffset = 4, byteSize = 4\<rparr>"
    by (simp add: HashMap_add_def HashMap_new_def u64_add_def U64_def)
  then have e: "entries (cache (fst ?st)) 9 = Some \<lparr>byteOffset = 4, byteSize = 4\<rparr>"
    unfolding Store_new_cache [OF f] .
  from replay_after_skip_indexes_too_early [OF refl b bad r t small f, of "[]"]
  obtain md where md: "entries (cache (fst ?st)) 9 = Some md"
    and g: "Store_get (fst ?st) (snd ?st) 9 [] =
      (True, takeWhile (\<lambda>b. b \<noteq> DELIMITER) (drop (byteOffset md) ?content))"
    and stop: "?content ! (byteOffset md + length (takeWhile (\<lambda>b. b \<noteq> DELIMITER) (drop (byteOffset md) ?content)))
      = DELIMITER"
    by blast
  from md e have m: "md = \<lparr>byteOffset = 4, byteSize = 4\<rparr>" by simp
  have tw: "takeWhile (\<lambda>b. b \<noteq> DELIMITER) (drop 4 ?content) = ''junk''"
    by (simp add: DELIMITER_def)
  have g': "Store_get (fst ?st) (snd ?st) 9 [] = (True, ''junk'')"
    using g unfolding m by (simp only: tw MetaData.simps)
  have stop': "?content ! 8 = DELIMITER"
    using stop unfolding m by (simp only: tw MetaData.simps) simp
  have pos: "take 4 (drop 9 ?content) = ''9,z'' @ [DELIMITER]" by simp
  from bad(3) r(2) ni pos e g' stop' show ?thesis by (simp add: Let_def)
qed


section \<open>Runs of puts and what \<^verbatim>\<open>get\<close> returns\<close>

subsection \<open>Decimal text and paths\<close>

lemma digit_cases:
  assumes "d < (10::nat)"
  shows "d = 0 \<or> d = 1 \<or> d = 2 \<or> d = 3 \<or> d = 4 \<or> d = 5 \<or> d = 6 \<or> d = 7 \<or> d = 8 \<or> d = 9"
  using assms by arith

lemma digit_val_digit_char: "d < 10 \<Longrightarrow> digit_val (digit_char d) = d"
  using digit_cases [of d] by (auto simp: digit_val_def digit_char_def)

lemma digit_char_in: "d < 10 \<Longrightarrow> digit_char d \<in> set ''0123456789''"
  using digit_cases [of d] by (auto simp: digit_char_def)

lemma decimal_val_snoc: "decimal_val (ds @ [c]) = 10 * decimal_val ds + digit_val c"
  by (simp add: decimal_val_def)

lemma decimal_val_to_string_u: "decimal_val (to_string_u n) = n"
proof (induction n rule: to_string_u.induct)
  case (1 n)
  show ?case
  proof (cases "n < 10")
    case True
    then show ?thesis
      by (subst to_string_u.simps) (simp add: decimal_val_def digit_val_digit_char)
  next
    case False
    with 1 have "decimal_val (to_string_u (n div 10)) = n div 10" by simp
    with False show ?thesis
      by (subst to_string_u.simps) (simp add: decimal_val_snoc digit_val_digit_char)
  qed
qed

lemma to_string_u_inj: "to_string_u m = to_string_u n \<Longrightarrow> m = n"
  by (metis decimal_val_to_string_u)

lemma segment_path_inj: "segment_path prefix m = segment_path prefix n \<Longrightarrow> m = n"
  by (auto simp: segment_path_def dest: to_string_u_inj)

lemma to_string_u_digits: "set (to_string_u n) \<subseteq> set ''0123456789''"
proof (induction n rule: to_string_u.induct)
  case (1 n)
  show ?case
  proof (cases "n < 10")
    case True
    then show ?thesis using digit_char_in [of n] by (subst to_string_u.simps) simp
  next
    case False
    with 1 have "set (to_string_u (n div 10)) \<subseteq> set ''0123456789''" by simp
    moreover have "digit_char (n mod 10) \<in> set ''0123456789''" by (rule digit_char_in) simp
    ultimately show ?thesis using False by (subst to_string_u.simps) simp
  qed
qed

lemma to_string_no_delimiter: "DELIMITER \<notin> set (to_string key)"
  using to_string_u_digits [of "nat key"] to_string_u_digits [of "nat (- key)"]
  by (auto simp: to_string_def DELIMITER_def)

lemma frame_body_no_delimiter: "DELIMITER \<notin> set val \<Longrightarrow> DELIMITER \<notin> set (frame_body key val)"
  using to_string_no_delimiter [of key] by (simp add: frame_body_def DELIMITER_def)

subsection \<open>A store that agrees with its file\<close>

lemma getline_append_stable:
  assumes "DELIMITER \<in> set xs"
  shows "fst (getline (xs @ ys)) = fst (getline xs)"
proof -
  from assms obtain a b where "xs = a @ DELIMITER # b" and "DELIMITER \<notin> set a"
    by (auto dest: split_list_first)
  then show ?thesis
    using getline_split [of a b] getline_split [of a "b @ ys"] by simp
qed

lemma store_ok_other_disk:
  "files d' (currDir st) = files d (currDir st) \<Longrightarrow> can_write d' (currDir st) = can_write d (currDir st) \<Longrightarrow>
   store_ok st d' = store_ok st d"
  by (simp add: store_ok_def)

lemma Store_get_other_disk:
  "files d' (currDir st) = files d (currDir st) \<Longrightarrow> Store_get st d' k out = Store_get st d k out"
  by (simp add: Store_get_def Let_def)

lemma Store_get_absent: "entries (cache st) k = None \<Longrightarrow> Store_get st d k out = (False, out)"
  by (simp add: Store_get_def HashMap_get_def)

lemma Store_get_read:
  assumes "store_ok st d" and "files d (currDir st) = Some content" and "entries (cache st) k = Some md"
  shows "Store_get st d k out = (True, fst (getline (drop (byteOffset md) content)))"
proof -
  from assms have p: "0 < byteSize md" and e: "DELIMITER \<in> set (drop (byteOffset md) content)"
    and l: "length content < 2 ^ 62"
    by (auto simp: store_ok_def)
  from e have "drop (byteOffset md) content \<noteq> []" by auto
  then have "byteOffset md < length content" by simp
  with l have "byteOffset md < 2 ^ 63" by simp
  with p assms(2,3) show ?thesis by (simp add: Store_get_def HashMap_get_def)
qed

lemma Store_set_appends:
  assumes ok: "store_ok st d" and c: "files d (currDir st) = Some content"
    and n: "DELIMITER \<notin> set body" and small: "length content + length body + 1 < 2 ^ 62"
  shows "Store_set st d key (body @ [DELIMITER]) (length (body @ [DELIMITER])) =
           (fst (Store_set st d key (body @ [DELIMITER]) (length (body @ [DELIMITER]))),
            d\<lparr>files := (files d)(currDir st \<mapsto> content @ body @ [DELIMITER])\<rparr>, True)"
    and "totalBytes (fst (Store_set st d key (body @ [DELIMITER]) (length (body @ [DELIMITER])))) =
           length content + length body + 1"
    and "store_ok (fst (Store_set st d key (body @ [DELIMITER]) (length (body @ [DELIMITER]))))
           (d\<lparr>files := (files d)(currDir st \<mapsto> content @ body @ [DELIMITER])\<rparr>)"
    and "\<And>out. Store_get (fst (Store_set st d key (body @ [DELIMITER]) (length (body @ [DELIMITER]))))
           (d\<lparr>files := (files d)(currDir st \<mapsto> content @ body @ [DELIMITER])\<rparr>) key out = (True, body)"
    and "\<And>k out. k \<noteq> key \<Longrightarrow>
           Store_get (fst (Store_set st d key (body @ [DELIMITER]) (length (body @ [DELIMITER]))))
             (d\<lparr>files := (files d)(currDir st \<mapsto> content @ body @ [DELIMITER])\<rparr>) k out =
           Store_get st d k out"
proof -
  let ?data = "body @ [DELIMITER]"
  let ?d' = "d\<lparr>files := (files d)(currDir st \<mapsto> content @ ?data)\<rparr>"
  let ?st' = "fst (Store_set st d key ?data (length ?data))"
  from ok c have s: "is_open (store st)" "\<not> failed (store st)" "buffer (store st) = []"
    "target (store st) = currDir st" "can_write d (currDir st)"
    and cur: "currByteOffset (cache st) = length content" and tot: "totalBytes st = length content"
    and ent: "\<And>k md. entries (cache st) k = Some md \<Longrightarrow>
                0 < byteSize md \<and> DELIMITER \<in> set (drop (byteOffset md) content)"
    by (auto simp: store_ok_def)
  have nowrap: "u64_add (length content) (length ?data) = length content + length body + 1"
  proof -
    have "(2::nat) ^ 62 < 2 ^ 64" by simp
    with small have "length content + length body + 1 < U64" unfolding U64_def by linarith
    then show ?thesis by (simp add: u64_add_def)
  qed
  have res: "Store_set st d key ?data (length ?data) = (?st', ?d', True)"
    using s c by (simp add: Store_set_def Store_set_write_def Store_set_count_def Store_set_flush_def
        Store_set_index_def ofstream_put_def ofstream_flush_def Let_def)
  have dir: "currDir ?st' = currDir st" by (rule Store_set_currDir)
  have cache': "cache ?st' = HashMap_add (cache st) key (length ?data)"
    using s by (simp add: Store_set_cache)
  have tot': "totalBytes ?st' = length content + length body + 1"
    using s tot nowrap by (simp add: Store_set_totalBytes)
  have str: "is_open (store ?st')" "\<not> failed (store ?st')" "buffer (store ?st') = []"
    "target (store ?st') = currDir st"
    using s by (simp_all add: Store_set_def Store_set_write_def Store_set_count_def Store_set_flush_def
        Store_set_index_def ofstream_put_def ofstream_flush_def Let_def)
  have ent': "0 < byteSize md \<and> DELIMITER \<in> set (drop (byteOffset md) (content @ ?data))"
    if "entries (cache ?st') k = Some md" for k md
  proof (cases "k = key")
    case True
    with that cache' cur have "md = \<lparr>byteOffset = length content, byteSize = length ?data\<rparr>"
      by (simp add: HashMap_add_def)
    then show ?thesis by simp
  next
    case False
    with that cache' have "entries (cache st) k = Some md" by (simp add: HashMap_add_def)
    from ent [OF this] show ?thesis by auto
  qed
  have ok': "store_ok ?st' ?d'"
    using str dir s(5) cache' cur tot' nowrap small ent'
    by (simp add: store_ok_def HashMap_add_def)
  have f': "files ?d' (currDir ?st') = Some (content @ ?data)" using dir by simp
  have rd: "Store_get ?st' ?d' key out = (True, body)" for out
  proof -
    have "entries (cache ?st') key = Some \<lparr>byteOffset = length content, byteSize = length ?data\<rparr>"
      using cache' cur by (simp add: HashMap_add_def)
    from Store_get_read [OF ok' f' this] show ?thesis
      using n getline_split [of body "[]"] by simp
  qed
  have other: "Store_get ?st' ?d' k out = Store_get st d k out" if "k \<noteq> key" for k out
  proof (cases "entries (cache st) k")
    case None
    with that cache' have "entries (cache ?st') k = None" by (simp add: HashMap_add_def)
    with None show ?thesis by (simp add: Store_get_absent)
  next
    case (Some md)
    with that cache' have e': "entries (cache ?st') k = Some md" by (simp add: HashMap_add_def)
    from ent [OF Some] have dl: "DELIMITER \<in> set (drop (byteOffset md) content)" by simp
    then have "drop (byteOffset md) content \<noteq> []" by auto
    then have "byteOffset md \<le> length content" by simp
    then have "drop (byteOffset md) (content @ ?data) = drop (byteOffset md) content @ ?data" by simp
    then have "fst (getline (drop (byteOffset md) (content @ ?data))) = fst (getline (drop (byteOffset md) content))"
      using getline_append_stable [OF dl, of ?data] by simp
    then show ?thesis
      using Store_get_read [OF ok' f' e', of out] Store_get_read [OF ok c Some, of out] by simp
  qed
  show "Store_set st d key ?data (length ?data) = (?st', ?d', True)" by (rule res)
  show "totalBytes ?st' = length content + length body + 1" by (rule tot')
  show "store_ok ?st' ?d'" by (rule ok')
  show "\<And>out. Store_get ?st' ?d' key out = (True, body)" by (rule rd)
  show "\<And>k out. k \<noteq> key \<Longrightarrow> Store_get ?st' ?d' k out = Store_get st d k out" by (rule other)
qed

lemma Store_new_fresh:
  assumes "files d p = None" and "can_open d p" and "can_write d p"
  shows "snd (Store_new p d) = d\<lparr>files := (files d)(p \<mapsto> [])\<rparr>"
    and "currDir (fst (Store_new p d)) = p"
    and "entries (cache (fst (Store_new p d))) = Map.empty"
    and "totalBytes (fst (Store_new p d)) = 0"
    and "store_ok (fst (Store_new p d)) (d\<lparr>files := (files d)(p \<mapsto> [])\<rparr>)"
  using assms
  by (simp_all add: Store_new_def Store_init_def Store_open_def ofstream_open_def ofstream_new_def
      HashMap_new_def store_ok_def)

subsection \<open>One put on the engine\<close>

lemma get_loop_disk_cong:
  "\<forall>st \<in> set sts. files d' (currDir st) = files d (currDir st) \<Longrightarrow>
   get_loop sts d' k buf = get_loop sts d k buf"
proof (induction sts arbitrary: buf)
  case Nil
  show ?case by simp
next
  case (Cons st sts)
  from Cons.prems have "Store_get st d' k buf = Store_get st d k buf"
    by (intro Store_get_other_disk) simp
  moreover from Cons.prems have "get_loop sts d' k b = get_loop sts d k b" for b
    by (intro Cons.IH) simp
  ultimately show ?case by (simp split: prod.splits bool.splits)
qed

lemma stores_ok_disk_cong:
  assumes "list_all (\<lambda>st. store_ok st d) sts"
    and "\<forall>st \<in> set sts. files d' (currDir st) = files d (currDir st)"
    and "can_write d' = can_write d"
  shows "list_all (\<lambda>st. store_ok st d') sts"
  unfolding list_all_iff
proof
  fix st assume m: "st \<in> set sts"
  with assms(1) have "store_ok st d" by (simp add: list_all_iff)
  moreover from m assms(2,3) have "store_ok st d' = store_ok st d"
    by (intro store_ok_other_disk) simp_all
  ultimately show "store_ok st d'" by simp
qed

lemma engine_set_no_rotation:
  assumes ok: "engine_ok e d" and n: "DELIMITER \<notin> set val"
    and small: "length (frame_body key val) < 2 ^ 61"
    and stores: "activeStores e = st # older"
    and fits: "\<not> u64_add (Store_getTotalBytes st) (length (frame_body key val @ [DELIMITER])) > MAX_FILE_BYTE_SIZE"
  shows "\<exists>e' d'. StorageEngine_set e d key val = Some (e', d', True) \<and> engine_ok e' d' \<and>
           prefixFileName e' = prefixFileName e \<and> totalFiles e' = totalFiles e \<and>
           (\<forall>k buf. get_loop (activeStores e') d' k buf =
              (if k = key then (True, frame_body key val) else get_loop (activeStores e) d k buf))"
proof -
  let ?body = "frame_body key val"
  let ?data = "?body @ [DELIMITER]"
  from ok have all_ok: "list_all (\<lambda>s. store_ok s d) (activeStores e)"
    and all_dist: "distinct (map currDir (activeStores e))"
    and hd_front: "totalBytes (hd (activeStores e)) \<le> MAX_FILE_BYTE_SIZE"
    and all_forms: "list_all (\<lambda>s. \<exists>n. n \<le> totalFiles e \<and> currDir s = segment_path (prefixFileName e) n)
        (activeStores e)"
    and all_fresh: "\<forall>n. totalFiles e < n \<longrightarrow>
         files d (segment_path (prefixFileName e) n) = None \<and>
         can_open d (segment_path (prefixFileName e) n) \<and>
         can_write d (segment_path (prefixFileName e) n)"
    unfolding engine_ok_def by blast+
  from all_ok stores have sok: "store_ok st d" and ook: "list_all (\<lambda>s. store_ok s d) older"
    by simp_all
  from all_dist stores have dist: "currDir st \<notin> set (map currDir older)" "distinct (map currDir older)"
    by simp_all
  from hd_front stores have front: "totalBytes st \<le> MAX_FILE_BYTE_SIZE" by simp
  from all_forms stores
  have forms: "list_all (\<lambda>s. \<exists>n. n \<le> totalFiles e \<and> currDir s = segment_path (prefixFileName e) n) (st # older)"
    by simp
  from all_fresh
  have fresh: "files d (segment_path (prefixFileName e) n) = None \<and>
         can_open d (segment_path (prefixFileName e) n) \<and> can_write d (segment_path (prefixFileName e) n)"
    if "totalFiles e < n" for n using that by blast
  from sok obtain content where c: "files d (currDir st) = Some content"
    and tot: "totalBytes st = length content"
    by (auto simp: store_ok_def split: option.splits)
  have nb: "DELIMITER \<notin> set ?body" using n by (rule frame_body_no_delimiter)
  have c20: "length content \<le> 20" using front tot by (simp add: MAX_FILE_BYTE_SIZE_def)
  have sm: "length content + length ?body + 1 < 2 ^ 62"
  proof -
    have "(20::nat) + 2 ^ 61 + 1 < 2 ^ 62" by simp
    with c20 small show ?thesis by linarith
  qed
  have sum: "u64_add (length content) (length ?data) = length content + length ?body + 1"
  proof -
    have "(2::nat) ^ 62 < 2 ^ 64" by simp
    with sm have "length content + length ?body + 1 < U64" unfolding U64_def by linarith
    then show ?thesis by (simp add: u64_add_def)
  qed
  let ?d' = "d\<lparr>files := (files d)(currDir st \<mapsto> content @ ?data)\<rparr>"
  let ?st' = "fst (Store_set st d key ?data (length ?data))"
  note app = Store_set_appends [OF sok c nb sm, where key = key]
  have set: "Store_set st d key ?data (length ?data) = (?st', ?d', True)" by (rule app(1))
  have dir: "currDir ?st' = currDir st" by (rule Store_set_currDir)
  have tot': "totalBytes ?st' = length content + length ?body + 1" by (rule app(2))
  have sok': "store_ok ?st' ?d'" by (rule app(3))
  have rd: "Store_get ?st' ?d' key out = (True, ?body)" for out by (rule app(4))
  have other: "Store_get ?st' ?d' k out = Store_get st d k out" if "k \<noteq> key" for k out
    by (rule app(5) [OF that])
  let ?e' = "e\<lparr>activeStores := ?st' # older\<rparr>"
  have d2: "fst (snd (Store_set st d key ?data (length ?data))) = ?d'"
    using set by (metis fst_conv snd_conv)
  have okk: "snd (snd (Store_set st d key ?data (length ?data)))"
    using set by (metis snd_conv)
  have res: "StorageEngine_set e d key val = Some (?e', ?d', True)"
    using stores fits d2 okk
    by (simp add: StorageEngine_set_def frame_body_def Let_def case_prod_beta)
  have unch: "\<forall>s \<in> set older. files ?d' (currDir s) = files d (currDir s)"
  proof
    fix s assume "s \<in> set older"
    then have "currDir s \<in> set (map currDir older)" by simp
    with dist(1) have "currDir s \<noteq> currDir st" by metis
    then show "files ?d' (currDir s) = files d (currDir s)" by simp
  qed
  have ook': "list_all (\<lambda>s. store_ok s ?d') older"
    using stores_ok_disk_cong [OF ook unch] by simp
  have front': "totalBytes ?st' \<le> MAX_FILE_BYTE_SIZE"
    using fits tot sum tot' by (simp add: Store_getTotalBytes_def)
  have fresh': "files ?d' (segment_path (prefixFileName e) m) = None \<and>
      can_open ?d' (segment_path (prefixFileName e) m) \<and> can_write ?d' (segment_path (prefixFileName e) m)"
    if "totalFiles e < m" for m
  proof -
    from forms obtain j where "j \<le> totalFiles e" "currDir st = segment_path (prefixFileName e) j" by auto
    with that have "segment_path (prefixFileName e) m \<noteq> currDir st"
      by (auto dest: segment_path_inj)
    with fresh [OF that] show ?thesis by simp
  qed
  have ok': "engine_ok ?e' ?d'"
    using sok' ook' dist dir front' forms fresh' by (simp add: engine_ok_def)
  have look: "get_loop (activeStores ?e') ?d' k buf =
      (if k = key then (True, ?body) else get_loop (activeStores e) d k buf)" for k buf
  proof (cases "k = key")
    case True
    then show ?thesis using rd by simp
  next
    case False
    then show ?thesis
      using other [OF False] get_loop_disk_cong [OF unch] stores by (simp split: prod.splits bool.splits)
  qed
  have "StorageEngine_set e d key val = Some (?e', ?d', True) \<and> engine_ok ?e' ?d' \<and>
           prefixFileName ?e' = prefixFileName e \<and> totalFiles ?e' = totalFiles e \<and>
           (\<forall>k buf. get_loop (activeStores ?e') ?d' k buf =
              (if k = key then (True, frame_body key val) else get_loop (activeStores e) d k buf))"
    using res ok' look by simp
  then show ?thesis by (intro exI)
qed

lemma engine_set_rotation:
  assumes ok: "engine_ok e d" and n: "DELIMITER \<notin> set val"
    and small: "length (frame_body key val) < 2 ^ 61"
    and stores: "activeStores e = st # older"
    and over: "u64_add (Store_getTotalBytes st) (length (frame_body key val @ [DELIMITER])) > MAX_FILE_BYTE_SIZE"
    and tf: "totalFiles e + 1 < U64"
  shows "\<exists>e' d'. StorageEngine_set e d key val = Some (e', d', True) \<and> engine_ok e' d' \<and>
           prefixFileName e' = prefixFileName e \<and> totalFiles e' = totalFiles e + 1 \<and>
           (\<forall>k buf. get_loop (activeStores e') d' k buf =
              (if k = key then (True, frame_body key val) else get_loop (activeStores e) d k buf))"
proof -
  let ?body = "frame_body key val"
  let ?data = "?body @ [DELIMITER]"
  let ?n1 = "totalFiles e + 1"
  let ?p = "segment_path (prefixFileName e) ?n1"
  from ok have all_ok: "list_all (\<lambda>s. store_ok s d) (activeStores e)"
    and all_dist: "distinct (map currDir (activeStores e))"
    and hd_front: "totalBytes (hd (activeStores e)) \<le> MAX_FILE_BYTE_SIZE"
    and all_forms: "list_all (\<lambda>s. \<exists>n. n \<le> totalFiles e \<and> currDir s = segment_path (prefixFileName e) n)
        (activeStores e)"
    and all_fresh: "\<forall>n. totalFiles e < n \<longrightarrow>
         files d (segment_path (prefixFileName e) n) = None \<and>
         can_open d (segment_path (prefixFileName e) n) \<and>
         can_write d (segment_path (prefixFileName e) n)"
    unfolding engine_ok_def by blast+
  from all_ok stores have sok: "store_ok st d" and ook: "list_all (\<lambda>s. store_ok s d) older"
    by simp_all
  from all_dist stores have dist: "currDir st \<notin> set (map currDir older)" "distinct (map currDir older)"
    by simp_all
  from hd_front stores have front: "totalBytes st \<le> MAX_FILE_BYTE_SIZE" by simp
  from all_forms stores
  have form_st: "\<exists>n. n \<le> totalFiles e \<and> currDir st = segment_path (prefixFileName e) n"
    and form_older: "list_all (\<lambda>s. \<exists>n. n \<le> totalFiles e \<and> currDir s = segment_path (prefixFileName e) n) older"
    by simp_all
  from all_fresh
  have fresh: "files d (segment_path (prefixFileName e) m) = None \<and>
         can_open d (segment_path (prefixFileName e) m) \<and> can_write d (segment_path (prefixFileName e) m)"
    if "totalFiles e < m" for m using that by blast
  have n1: "u64_add (totalFiles e) 1 = ?n1" using tf by (simp add: u64_add_def)
  have pf: "files d ?p = None" "can_open d ?p" "can_write d ?p" using fresh [of ?n1] by simp_all
  from sok obtain content where c: "files d (currDir st) = Some content"
    and tot: "totalBytes st = length content"
    by (auto simp: store_ok_def split: option.splits)
  have p_st: "?p \<noteq> currDir st" using pf(1) c by auto
  have p_older: "currDir s \<noteq> ?p" if "s \<in> set older" for s
  proof -
    from ook that have "store_ok s d" by (simp add: list_all_iff)
    then have "files d (currDir s) \<noteq> None" by (auto simp: store_ok_def split: option.splits)
    with pf(1) show ?thesis by auto
  qed
  have st_older: "currDir s \<noteq> currDir st" if "s \<in> set older" for s
  proof -
    from that have "currDir s \<in> set (map currDir older)" by simp
    with dist(1) show ?thesis by metis
  qed
  let ?d1 = "d\<lparr>files := (files d)(?p \<mapsto> [])\<rparr>"
  let ?stn = "fst (Store_new ?p d)"
  note new = Store_new_fresh [OF pf]
  have nb: "DELIMITER \<notin> set ?body" using n by (rule frame_body_no_delimiter)
  have c20: "length content \<le> 20" using front tot by (simp add: MAX_FILE_BYTE_SIZE_def)
  have sm: "length content + length ?body + 1 < 2 ^ 62"
  proof -
    have "(20::nat) + 2 ^ 61 + 1 < 2 ^ 62" by simp
    with c20 small show ?thesis by linarith
  qed
  have sok1: "store_ok st ?d1"
    using sok p_st store_ok_other_disk [of ?d1 st d] by simp
  have c1: "files ?d1 (currDir st) = Some content" using c p_st by simp
  let ?d2 = "?d1\<lparr>files := (files ?d1)(currDir st \<mapsto> content @ ?data)\<rparr>"
  let ?st' = "fst (Store_set st ?d1 key ?data (length ?data))"
  note app = Store_set_appends [OF sok1 c1 nb sm, where key = key]
  have set: "Store_set st ?d1 key ?data (length ?data) = (?st', ?d2, True)" by (rule app(1))
  have dir: "currDir ?st' = currDir st" by (rule Store_set_currDir)
  have sok': "store_ok ?st' ?d2" by (rule app(3))
  have rd: "Store_get ?st' ?d2 key out = (True, ?body)" for out by (rule app(4))
  have other: "Store_get ?st' ?d2 k out = Store_get st ?d1 k out" if "k \<noteq> key" for k out
    by (rule app(5) [OF that])
  let ?e' = "e\<lparr>totalFiles := ?n1, activeStores := ?stn # ?st' # older\<rparr>"
  have d2: "fst (snd (Store_set st ?d1 key ?data (length ?data))) = ?d2"
    using set by (metis fst_conv snd_conv)
  have okk: "snd (snd (Store_set st ?d1 key ?data (length ?data)))"
    using set by (metis snd_conv)
  have res: "StorageEngine_set e d key val = Some (?e', ?d2, True)"
    using stores over d2 okk n1 new(1)
    by (simp add: StorageEngine_set_def StorageEngine_onCapacityExceeded_def
        StorageEngine_createStore_def segment_path_def frame_body_def Let_def case_prod_beta
        prod_eq_iff)
  have unch: "\<forall>s \<in> set older. files ?d2 (currDir s) = files d (currDir s)"
    using p_older st_older by simp
  have ook2: "list_all (\<lambda>s. store_ok s ?d2) older"
    using stores_ok_disk_cong [OF ook unch] by simp
  have sokn: "store_ok ?stn ?d2"
    using new(5) new(2) p_st store_ok_other_disk [of ?d2 ?stn ?d1] by simp
  have fresh2: "files ?d2 (segment_path (prefixFileName e) m) = None \<and>
      can_open ?d2 (segment_path (prefixFileName e) m) \<and> can_write ?d2 (segment_path (prefixFileName e) m)"
    if "?n1 < m" for m
  proof -
    from form_st obtain j where "j \<le> totalFiles e" "currDir st = segment_path (prefixFileName e) j" by auto
    with that have "segment_path (prefixFileName e) m \<noteq> currDir st"
      by (auto dest: segment_path_inj)
    moreover from that have "segment_path (prefixFileName e) m \<noteq> ?p"
      by (auto dest: segment_path_inj)
    moreover from that have "totalFiles e < m" by simp
    ultimately show ?thesis using fresh [of m] by simp
  qed
  have forms2: "list_all (\<lambda>s. \<exists>n. n \<le> ?n1 \<and> currDir s = segment_path (prefixFileName e) n)
      (?stn # ?st' # older)"
  proof -
    have "\<exists>n. n \<le> ?n1 \<and> currDir ?stn = segment_path (prefixFileName e) n"
      using new(2) by blast
    moreover have "\<exists>n. n \<le> ?n1 \<and> currDir ?st' = segment_path (prefixFileName e) n"
      using form_st dir by (metis le_add1 le_trans)
    moreover have "list_all (\<lambda>s. \<exists>n. n \<le> ?n1 \<and> currDir s = segment_path (prefixFileName e) n) older"
      using form_older unfolding list_all_iff by (metis le_add1 le_trans)
    ultimately show ?thesis by simp
  qed
  have "?p \<notin> set (map currDir older)"
  proof
    assume "?p \<in> set (map currDir older)"
    then obtain s where "s \<in> set older" "currDir s = ?p" by auto
    with p_older show False by blast
  qed
  then have dist2: "distinct (map currDir (?stn # ?st' # older))"
    using dist dir new(2) p_st by simp
  have ok': "engine_ok ?e' ?d2"
    unfolding engine_ok_def
    using sokn sok' ook2 dist2 new(4) forms2 fresh2
    by (simp add: MAX_FILE_BYTE_SIZE_def)
  have absent: "Store_get ?stn ?d2 k buf = (False, buf)" for k buf
    using new(3) by (simp add: Store_get_absent)
  have unch1: "\<forall>s \<in> set (st # older). files ?d1 (currDir s) = files d (currDir s)"
    using p_st p_older by simp
  have look: "get_loop (activeStores ?e') ?d2 k buf =
      (if k = key then (True, ?body) else get_loop (activeStores e) d k buf)" for k buf
  proof (cases "k = key")
    case True
    then show ?thesis using rd absent by simp
  next
    case False
    have "Store_get st ?d1 k buf = Store_get st d k buf"
      using p_st by (intro Store_get_other_disk) simp
    then show ?thesis
      using False absent other [OF False] get_loop_disk_cong [OF unch] stores
      by (simp split: prod.splits bool.splits)
  qed
  have "StorageEngine_set e d key val = Some (?e', ?d2, True) \<and> engine_ok ?e' ?d2 \<and>
           prefixFileName ?e' = prefixFileName e \<and> totalFiles ?e' = totalFiles e + 1 \<and>
           (\<forall>k buf. get_loop (activeStores ?e') ?d2 k buf =
              (if k = key then (True, frame_body key val) else get_loop (activeStores e) d k buf))"
    using res ok' look by simp
  then show ?thesis by (intro exI)
qed

lemma engine_set_step:
  assumes ok: "engine_ok e d" and n: "DELIMITER \<notin> set val"
    and small: "length (frame_body key val) < 2 ^ 61"
    and tf: "totalFiles e + 1 < U64"
  shows "\<exists>e' d'. StorageEngine_set e d key val = Some (e', d', True) \<and> engine_ok e' d' \<and>
           totalFiles e' \<le> totalFiles e + 1 \<and>
           (\<forall>k buf. get_loop (activeStores e') d' k buf =
              (if k = key then (True, frame_body key val) else get_loop (activeStores e) d k buf))"
proof -
  from ok obtain st older where stores: "activeStores e = st # older"
    unfolding engine_ok_def by (cases "activeStores e") auto
  show ?thesis
  proof (cases "u64_add (Store_getTotalBytes st) (length (frame_body key val @ [DELIMITER])) > MAX_FILE_BYTE_SIZE")
    case True
    from engine_set_rotation [OF ok n small stores True tf] show ?thesis
      by (metis order_refl)
  next
    case False
    from engine_set_no_rotation [OF ok n small stores False] show ?thesis
      by (metis le_add1)
  qed
qed

subsection \<open>Runs of the engine\<close>

lemma engine_new_ok:
  assumes "fresh_disk prefix d"
  shows "engine_ok (fst (StorageEngine_new prefix d)) (snd (StorageEngine_new prefix d))"
    and "totalFiles (fst (StorageEngine_new prefix d)) = 1"
    and "get_loop (activeStores (fst (StorageEngine_new prefix d))) (snd (StorageEngine_new prefix d)) k buf
           = (False, buf)"
proof -
  let ?p = "segment_path prefix 1"
  let ?e = "fst (StorageEngine_new prefix d)"
  let ?d = "snd (StorageEngine_new prefix d)"
  from assms have pf: "files d ?p = None" "can_open d ?p" "can_write d ?p"
    and fresh: "\<And>n. files d (segment_path prefix n) = None \<and> can_open d (segment_path prefix n) \<and>
          can_write d (segment_path prefix n)"
    by (simp_all add: fresh_disk_def)
  note new = Store_new_fresh [OF pf]
  have one: "u64_add 0 (Suc 0) = Suc 0" by (simp add: u64_add_def U64_def)
  have stores: "activeStores ?e = [fst (Store_new ?p d)]"
    by (simp add: StorageEngine_new_def StorageEngine_init_def StorageEngine_createStore_def
        segment_path_def Let_def case_prod_beta one)
  have disk: "?d = d\<lparr>files := (files d)(?p \<mapsto> [])\<rparr>"
    using new(1)
    by (simp add: StorageEngine_new_def StorageEngine_init_def StorageEngine_createStore_def
        segment_path_def Let_def case_prod_beta one)
  have pre: "prefixFileName ?e = prefix"
    by (simp add: StorageEngine_new_def StorageEngine_init_def StorageEngine_createStore_def
        Let_def case_prod_beta)
  show tf: "totalFiles ?e = 1"
    by (simp add: StorageEngine_new_def StorageEngine_init_def StorageEngine_createStore_def
        Let_def case_prod_beta one)
  have fresh': "files ?d (segment_path prefix m) = None \<and> can_open ?d (segment_path prefix m) \<and>
      can_write ?d (segment_path prefix m)" if "1 < m" for m
  proof -
    from that have "segment_path prefix m \<noteq> ?p" by (auto dest: segment_path_inj)
    with fresh [of m] show ?thesis unfolding disk by simp
  qed
  have form: "\<exists>n. n \<le> 1 \<and> currDir (fst (Store_new ?p d)) = segment_path prefix n"
    using new(2) by blast
  show "engine_ok ?e ?d"
    unfolding engine_ok_def stores pre tf
    using new(4) new(5) form fresh' unfolding disk by (simp add: MAX_FILE_BYTE_SIZE_def)
  show "get_loop (activeStores ?e) ?d k buf = (False, buf)"
    unfolding stores using new(3) by (simp add: Store_get_absent)
qed

lemma engine_puts_refines:
  assumes "engine_ok e d" and "list_all plain_put ops" and "totalFiles e + length ops < U64"
  shows "\<exists>e' d'. StorageEngine_puts (e, d) ops = Some (e', d') \<and> engine_ok e' d' \<and>
           totalFiles e' \<le> totalFiles e + length ops \<and>
           (\<forall>k buf. get_loop (activeStores e') d' k buf =
              (case last_put ops k of
                 Some v \<Rightarrow> (True, frame_body k v)
               | None \<Rightarrow> get_loop (activeStores e) d k buf))"
  using assms
proof (induction ops arbitrary: e d)
  case Nil
  then show ?case by simp
next
  case (Cons kv ops)
  obtain key val where kv: "kv = (key, val)" by (cases kv)
  from Cons.prems(2) kv have "plain_put (key, val)" and rest: "list_all plain_put ops"
    by simp_all
  then have n: "DELIMITER \<notin> set val" and small: "length (frame_body key val) < 2 ^ 61"
    by (simp_all add: plain_put_def)
  from Cons.prems(3) have tf: "totalFiles e + 1 < U64" by simp
  from engine_set_step [OF Cons.prems(1) n small tf]
  obtain e1 d1 where s: "StorageEngine_set e d key val = Some (e1, d1, True)"
    and ok1: "engine_ok e1 d1" and tf1: "totalFiles e1 \<le> totalFiles e + 1"
    and look1: "\<And>k buf. get_loop (activeStores e1) d1 k buf =
              (if k = key then (True, frame_body key val) else get_loop (activeStores e) d k buf)"
    by blast
  from tf1 Cons.prems(3) have "totalFiles e1 + length ops < U64" by simp
  from Cons.IH [OF ok1 rest this]
  obtain e' d' where r: "StorageEngine_puts (e1, d1) ops = Some (e', d')" and ok': "engine_ok e' d'"
    and tf': "totalFiles e' \<le> totalFiles e1 + length ops"
    and look: "\<And>k buf. get_loop (activeStores e') d' k buf =
              (case last_put ops k of
                 Some v \<Rightarrow> (True, frame_body k v)
               | None \<Rightarrow> get_loop (activeStores e1) d1 k buf)"
    by blast
  have "StorageEngine_puts (e, d) (kv # ops) = Some (e', d')" using kv s r by simp
  moreover have "get_loop (activeStores e') d' k buf =
              (case last_put (kv # ops) k of
                 Some v \<Rightarrow> (True, frame_body k v)
               | None \<Rightarrow> get_loop (activeStores e) d k buf)" for k buf
    unfolding look look1 kv by (simp split: option.splits)
  moreover have "totalFiles e' \<le> totalFiles e + length (kv # ops)" using tf' tf1 by simp
  ultimately show ?case using ok' by blast
qed

lemma StorageEngine_puts_append:
  "StorageEngine_puts ed (xs @ ys) =
     (case StorageEngine_puts ed xs of None \<Rightarrow> None | Some ed' \<Rightarrow> StorageEngine_puts ed' ys)"
proof (induction xs arbitrary: ed)
  case Nil
  show ?case by simp
next
  case (Cons kv xs)
  obtain key val where kv: "kv = (key, val)" by (cases kv)
  obtain e d where ed: "ed = (e, d)" by (cases ed)
  show ?case unfolding kv ed using Cons.IH by (simp split: option.splits)
qed

lemma engine_run_ok:
  assumes "fresh_disk prefix d0" and "list_all plain_put ops" and "length ops < 2 ^ 63"
  shows "\<exists>e d. StorageEngine_puts (StorageEngine_new prefix d0) ops = Some (e, d) \<and>
           engine_ok e d \<and> totalFiles e \<le> 1 + length ops \<and>
           (\<forall>k buf. get_loop (activeStores e) d k buf =
              (case last_put ops k of Some v \<Rightarrow> (True, frame_body k v) | None \<Rightarrow> (False, buf)))"
proof -
  let ?e0 = "fst (StorageEngine_new prefix d0)"
  let ?d0 = "snd (StorageEngine_new prefix d0)"
  note new = engine_new_ok [OF assms(1)]
  have "(1::nat) + 2 ^ 63 < 2 ^ 64" by simp
  with assms(3) have "totalFiles ?e0 + length ops < U64" unfolding new(2) U64_def by linarith
  from engine_puts_refines [OF new(1) assms(2) this]
  obtain e d where r: "StorageEngine_puts (?e0, ?d0) ops = Some (e, d)"
    and ok: "engine_ok e d" and tf: "totalFiles e \<le> totalFiles ?e0 + length ops"
    and look: "\<And>k buf. get_loop (activeStores e) d k buf =
              (case last_put ops k of
                 Some v \<Rightarrow> (True, frame_body k v)
               | None \<Rightarrow> get_loop (activeStores ?e0) ?d0 k buf)"
    by blast
  have "get_loop (activeStores e) d k buf =
      (case last_put ops k of Some v \<Rightarrow> (True, frame_body k v) | None \<Rightarrow> (False, buf))" for k buf
    unfolding look new(3) by simp
  moreover have "totalFiles e \<le> 1 + length ops" using tf new(2) by simp
  ultimately show ?thesis using r ok by auto
qed

lemma last_put_absent: "list_all (\<lambda>kv. fst kv \<noteq> key) ops \<Longrightarrow> last_put ops key = None"
  by (induction ops) auto

lemma engine_get_of_loop:
  "get_loop (activeStores e) d k [] = (True, x) \<Longrightarrow> snd (StorageEngine_get e d k) = Some x"
  by (simp add: StorageEngine_get_def)

subsection \<open>Runs of the single-file store\<close>

lemma Store1_get_absent: "entries (cache1 st) k = None \<Longrightarrow> Store1_get st d k out = (False, out)"
  by (simp add: Store1_get_def HashMap_get_def)

lemma Store1_get_read:
  assumes "store1_ok st d" and "files d (currDir1 st) = Some content" and "entries (cache1 st) k = Some md"
  shows "Store1_get st d k out = (True, fst (getline (drop (byteOffset md) content)))"
proof -
  from assms have p: "0 < byteSize md" and e: "DELIMITER \<in> set (drop (byteOffset md) content)"
    and l: "length content < 2 ^ 62"
    by (auto simp: store1_ok_def)
  from e have "drop (byteOffset md) content \<noteq> []" by auto
  then have "byteOffset md < length content" by simp
  with l have "byteOffset md < 2 ^ 63" by simp
  with p assms(2,3) show ?thesis by (simp add: Store1_get_def HashMap_get_def)
qed

lemma Store1_set_appends:
  assumes ok: "store1_ok st d" and c: "files d (currDir1 st) = Some content"
    and n: "DELIMITER \<notin> set val" and small: "length content + length (frame_body key val) + 1 < 2 ^ 62"
  shows "Store1_set st d key val =
           (fst (Store1_set st d key val),
            d\<lparr>files := (files d)(currDir1 st \<mapsto> content @ frame_body key val @ [DELIMITER])\<rparr>, True)"
    and "currDir1 (fst (Store1_set st d key val)) = currDir1 st"
    and "store1_ok (fst (Store1_set st d key val))
           (d\<lparr>files := (files d)(currDir1 st \<mapsto> content @ frame_body key val @ [DELIMITER])\<rparr>)"
    and "\<And>out. Store1_get (fst (Store1_set st d key val))
           (d\<lparr>files := (files d)(currDir1 st \<mapsto> content @ frame_body key val @ [DELIMITER])\<rparr>) key out
           = (True, frame_body key val)"
    and "\<And>k out. k \<noteq> key \<Longrightarrow>
           Store1_get (fst (Store1_set st d key val))
             (d\<lparr>files := (files d)(currDir1 st \<mapsto> content @ frame_body key val @ [DELIMITER])\<rparr>) k out =
           Store1_get st d k out"
proof -
  let ?body = "frame_body key val"
  let ?data = "?body @ [DELIMITER]"
  let ?d' = "d\<lparr>files := (files d)(currDir1 st \<mapsto> content @ ?data)\<rparr>"
  let ?st' = "fst (Store1_set st d key val)"
  have nb: "DELIMITER \<notin> set ?body" using n by (rule frame_body_no_delimiter)
  have data: "to_string key @ '','' @ val @ [DELIMITER] = ?data" by (simp add: frame_body_def)
  from ok c have s: "is_open (store1 st)" "\<not> failed (store1 st)" "buffer (store1 st) = []"
    "target (store1 st) = currDir1 st" "can_write d (currDir1 st)"
    and cur: "currByteOffset (cache1 st) = length content"
    and ent: "\<And>k md. entries (cache1 st) k = Some md \<Longrightarrow>
                0 < byteSize md \<and> DELIMITER \<in> set (drop (byteOffset md) content)"
    by (auto simp: store1_ok_def)
  have nowrap: "u64_add (length content) (length ?data) = length content + length ?body + 1"
  proof -
    have "(2::nat) ^ 62 < 2 ^ 64" by simp
    with small have "length content + length ?body + 1 < U64" unfolding U64_def by linarith
    then show ?thesis by (simp add: u64_add_def)
  qed
  show res: "Store1_set st d key val = (?st', ?d', True)"
    using s c unfolding Store1_set_def data
    by (simp add: ofstream_put_def ofstream_flush_def Let_def)
  show dir: "currDir1 ?st' = currDir1 st"
    unfolding Store1_set_def data by (simp add: Let_def case_prod_beta)
  have cache': "cache1 ?st' = HashMap_add (cache1 st) key (length ?data)"
    using s unfolding Store1_set_def data by (simp add: Let_def case_prod_beta)
  have str: "is_open (store1 ?st')" "\<not> failed (store1 ?st')" "buffer (store1 ?st') = []"
    "target (store1 ?st') = currDir1 st"
    using s unfolding Store1_set_def data
    by (simp_all add: ofstream_put_def ofstream_flush_def Let_def)
  have ent': "0 < byteSize md \<and> DELIMITER \<in> set (drop (byteOffset md) (content @ ?data))"
    if "entries (cache1 ?st') k = Some md" for k md
  proof (cases "k = key")
    case True
    with that cache' cur have "md = \<lparr>byteOffset = length content, byteSize = length ?data\<rparr>"
      by (simp add: HashMap_add_def)
    then show ?thesis by simp
  next
    case False
    with that cache' have "entries (cache1 st) k = Some md" by (simp add: HashMap_add_def)
    from ent [OF this] show ?thesis by auto
  qed
  show ok': "store1_ok ?st' ?d'"
    using str dir s(5) cache' cur nowrap small ent'
    by (simp add: store1_ok_def HashMap_add_def)
  have f': "files ?d' (currDir1 ?st') = Some (content @ ?data)" using dir by simp
  show "Store1_get ?st' ?d' key out = (True, ?body)" for out
  proof -
    have "entries (cache1 ?st') key = Some \<lparr>byteOffset = length content, byteSize = length ?data\<rparr>"
      using cache' cur by (simp add: HashMap_add_def)
    from Store1_get_read [OF ok' f' this] show ?thesis
      using nb getline_split [of ?body "[]"] by simp
  qed
  show "Store1_get ?st' ?d' k out = Store1_get st d k out" if "k \<noteq> key" for k out
  proof (cases "entries (cache1 st) k")
    case None
    with that cache' have "entries (cache1 ?st') k = None" by (simp add: HashMap_add_def)
    with None show ?thesis by (simp add: Store1_get_absent)
  next
    case (Some md)
    with that cache' have e': "entries (cache1 ?st') k = Some md" by (simp add: HashMap_add_def)
    from ent [OF Some] have dl: "DELIMITER \<in> set (drop (byteOffset md) content)" by simp
    then have "drop (byteOffset md) content \<noteq> []" by auto
    then have "byteOffset md \<le> length content" by simp
    then have "drop (byteOffset md) (content @ ?data) = drop (byteOffset md) content @ ?data" by simp
    then have "fst (getline (drop (byteOffset md) (content @ ?data))) = fst (getline (drop (byteOffset md) content))"
      using getline_append_stable [OF dl, of ?data] by simp
    then show ?thesis
      using Store1_get_read [OF ok' f' e', of out] Store1_get_read [OF ok c Some, of out] by simp
  qed
qed

lemma Store1_new_fresh:
  assumes "files d p = None" and "can_open d p" and "can_write d p"
  shows "snd (Store1_new p HashMap_new d) = d\<lparr>files := (files d)(p \<mapsto> [])\<rparr>"
    and "currDir1 (fst (Store1_new p HashMap_new d)) = p"
    and "entries (cache1 (fst (Store1_new p HashMap_new d))) = Map.empty"
    and "store1_ok (fst (Store1_new p HashMap_new d)) (d\<lparr>files := (files d)(p \<mapsto> [])\<rparr>)"
  using assms
  by (simp_all add: Store1_new_def Store1_init_def Store1_open_def ofstream_open_def ofstream_new_def
      HashMap_new_def store1_ok_def)

lemma Store1_puts_refines:
  assumes "store1_ok st d" and "files d (currDir1 st) = Some content"
    and "list_all (\<lambda>kv. DELIMITER \<notin> set (snd kv)) ops"
    and "length content + frames_size ops < 2 ^ 62"
  shows "store1_ok (fst (Store1_puts (st, d) ops)) (snd (Store1_puts (st, d) ops)) \<and>
         (\<forall>k out. Store1_get (fst (Store1_puts (st, d) ops)) (snd (Store1_puts (st, d) ops)) k out =
            (case last_put ops k of
               Some v \<Rightarrow> (True, frame_body k v)
             | None \<Rightarrow> Store1_get st d k out))"
  using assms
proof (induction ops arbitrary: st d content)
  case Nil
  then show ?case by simp
next
  case (Cons kv ops)
  obtain key val where kv: "kv = (key, val)" by (cases kv)
  let ?d' = "d\<lparr>files := (files d)(currDir1 st \<mapsto> content @ frame_body key val @ [DELIMITER])\<rparr>"
  let ?st' = "fst (Store1_set st d key val)"
  from Cons.prems(3) kv have n: "DELIMITER \<notin> set val"
    and rest: "list_all (\<lambda>kv. DELIMITER \<notin> set (snd kv)) ops" by simp_all
  from Cons.prems(4) kv have small: "length content + length (frame_body key val) + 1 < 2 ^ 62"
    and small': "length (content @ frame_body key val @ [DELIMITER]) + frames_size ops < 2 ^ 62"
    by (simp_all add: frames_size_def)
  note app = Store1_set_appends [OF Cons.prems(1,2) n small]
  have f': "files ?d' (currDir1 ?st') = Some (content @ frame_body key val @ [DELIMITER])"
    using app(2) by simp
  note IH = Cons.IH [OF app(3) f' rest small']
  have step: "Store1_puts (st, d) ((key, val) # ops) = Store1_puts (?st', ?d') ops"
    using app(1) by (simp add: case_prod_beta) (metis fst_conv snd_conv)
  from IH have okI: "store1_ok (fst (Store1_puts (?st', ?d') ops)) (snd (Store1_puts (?st', ?d') ops))"
    and lookI: "\<And>k out. Store1_get (fst (Store1_puts (?st', ?d') ops)) (snd (Store1_puts (?st', ?d') ops)) k out =
            (case last_put ops k of
               Some v \<Rightarrow> (True, frame_body k v)
             | None \<Rightarrow> Store1_get ?st' ?d' k out)"
    by blast+
  have "Store1_get (fst (Store1_puts (st, d) (kv # ops))) (snd (Store1_puts (st, d) (kv # ops))) k out =
      (case last_put (kv # ops) k of Some v \<Rightarrow> (True, frame_body k v) | None \<Rightarrow> Store1_get st d k out)"
    for k out
    unfolding kv step lookI using app(4) app(5) by (simp split: option.splits)
  then show ?case unfolding kv step using okI by simp
qed

lemma Store1_puts_append: "Store1_puts sd (xs @ ys) = Store1_puts (Store1_puts sd xs) ys"
proof (induction xs arbitrary: sd)
  case Nil
  show ?case by simp
next
  case (Cons kv xs)
  obtain key val where kv: "kv = (key, val)" by (cases kv)
  obtain st d where sd: "sd = (st, d)" by (cases sd)
  show ?case unfolding kv sd using Cons.IH by (simp split: prod.splits)
qed

lemma frames_size_append: "frames_size (xs @ ys) = frames_size xs + frames_size ys"
  by (simp add: frames_size_def)

lemma engine_put_then_get:
  assumes fresh: "fresh_disk prefix d0"
    and plain: "list_all plain_put (ops1 @ (key, val) # ops2)"
    and len: "length (ops1 @ (key, val) # ops2) < 2 ^ 63"
    and later: "list_all (\<lambda>kv. fst kv \<noteq> key) ops2"
  shows "\<exists>e1 d1 e2 d2 e d.
           StorageEngine_puts (StorageEngine_new prefix d0) ops1 = Some (e1, d1) \<and>
           StorageEngine_set e1 d1 key val = Some (e2, d2, True) \<and>
           StorageEngine_puts (e2, d2) ops2 = Some (e, d) \<and>
           snd (StorageEngine_get e d key) = Some (to_string key @ '','' @ val)"
proof -
  from plain have p1: "list_all plain_put ops1" and pk: "plain_put (key, val)"
    and p2: "list_all plain_put ops2"
    by simp_all
  from len have l1: "length ops1 < 2 ^ 63" by simp
  from engine_run_ok [OF fresh p1 l1]
  obtain e1 d1 where r1: "StorageEngine_puts (StorageEngine_new prefix d0) ops1 = Some (e1, d1)"
    and ok1: "engine_ok e1 d1" and tf1: "totalFiles e1 \<le> 1 + length ops1"
    by blast
  have big: "(2::nat) ^ 63 + 2 < 2 ^ 64" by simp
  from tf1 len big have t1: "totalFiles e1 + 1 < U64" unfolding U64_def by simp
  from pk have n: "DELIMITER \<notin> set val" and sm: "length (frame_body key val) < 2 ^ 61"
    by (simp_all add: plain_put_def)
  from engine_set_step [OF ok1 n sm t1]
  obtain e2 d2 where r2: "StorageEngine_set e1 d1 key val = Some (e2, d2, True)"
    and ok2: "engine_ok e2 d2" and tf2: "totalFiles e2 \<le> totalFiles e1 + 1"
    and look2: "\<And>k buf. get_loop (activeStores e2) d2 k buf =
              (if k = key then (True, frame_body key val) else get_loop (activeStores e1) d1 k buf)"
    by blast
  from tf1 tf2 len big have t2: "totalFiles e2 + length ops2 < U64" unfolding U64_def by simp
  from engine_puts_refines [OF ok2 p2 t2]
  obtain e d where r3: "StorageEngine_puts (e2, d2) ops2 = Some (e, d)"
    and look: "\<And>k buf. get_loop (activeStores e) d k buf =
              (case last_put ops2 k of
                 Some v \<Rightarrow> (True, frame_body k v)
               | None \<Rightarrow> get_loop (activeStores e2) d2 k buf)"
    by blast
  have "get_loop (activeStores e) d key [] = (True, frame_body key val)"
    unfolding look look2 last_put_absent [OF later] by simp
  then have "snd (StorageEngine_get e d key) = Some (to_string key @ '','' @ val)"
    by (simp add: engine_get_of_loop frame_body_def)
  with r1 r2 r3 show ?thesis by blast
qed

lemma last_put_found:
  "list_all (\<lambda>kv. fst kv \<noteq> key) ops2 \<Longrightarrow> last_put (ops1 @ (key, val) # ops2) key = Some val"
  by (induction ops1) (auto simp: last_put_absent split: option.splits)

lemma Store1_put_then_get:
  assumes absent: "files d0 dir = None" and can: "can_open d0 dir" "can_write d0 dir"
    and plain: "list_all (\<lambda>kv. DELIMITER \<notin> set (snd kv)) (ops1 @ (key, val) # ops2)"
    and size: "frames_size (ops1 @ (key, val) # ops2) < 2 ^ 62"
    and later: "list_all (\<lambda>kv. fst kv \<noteq> key) ops2"
  shows "snd (snd (Store1_set (fst (Store1_puts (Store1_new dir HashMap_new d0) ops1))
                               (snd (Store1_puts (Store1_new dir HashMap_new d0) ops1)) key val)) \<and>
         Store1_get (fst (Store1_puts (Store1_new dir HashMap_new d0) (ops1 @ (key, val) # ops2)))
                    (snd (Store1_puts (Store1_new dir HashMap_new d0) (ops1 @ (key, val) # ops2)))
                    key out = (True, to_string key @ '','' @ val)"
proof -
  let ?st0 = "fst (Store1_new dir HashMap_new d0)"
  let ?d1 = "d0\<lparr>files := (files d0)(dir \<mapsto> [])\<rparr>"
  note new = Store1_new_fresh [OF absent can]
  have pair: "(?st0, ?d1) = Store1_new dir HashMap_new d0" using new(1) by (simp add: prod_eq_iff)
  have f0: "files ?d1 (currDir1 ?st0) = Some []" using new(2) by simp
  from plain have p1: "list_all (\<lambda>kv. DELIMITER \<notin> set (snd kv)) ops1" by simp
  from size have s1: "length ([]::string) + frames_size ops1 < 2 ^ 62"
    by (simp add: frames_size_append)
  from Store1_puts_refines [OF new(4) f0 p1 s1]
  have "store1_ok (fst (Store1_puts (?st0, ?d1) ops1)) (snd (Store1_puts (?st0, ?d1) ops1))"
    by blast
  then have "is_open (store1 (fst (Store1_puts (?st0, ?d1) ops1)))" by (simp add: store1_ok_def)
  then have "is_open (store1 (fst (Store1_puts (Store1_new dir HashMap_new d0) ops1)))"
    unfolding pair .
  then have first: "snd (snd (Store1_set (fst (Store1_puts (Store1_new dir HashMap_new d0) ops1))
                               (snd (Store1_puts (Store1_new dir HashMap_new d0) ops1)) key val))"
    by (simp add: Store1_set_def Let_def case_prod_beta)
  from size have s: "length ([]::string) + frames_size (ops1 @ (key, val) # ops2) < 2 ^ 62" by simp
  from Store1_puts_refines [OF new(4) f0 plain s]
  have "Store1_get (fst (Store1_puts (?st0, ?d1) (ops1 @ (key, val) # ops2)))
                    (snd (Store1_puts (?st0, ?d1) (ops1 @ (key, val) # ops2))) key out =
        (True, frame_body key val)"
    by (simp add: last_put_found [OF later])
  then have "Store1_get (fst (Store1_puts (Store1_new dir HashMap_new d0) (ops1 @ (key, val) # ops2)))
                    (snd (Store1_puts (Store1_new dir HashMap_new d0) (ops1 @ (key, val) # ops2)))
                    key out = (True, to_string key @ '','' @ val)"
    unfolding pair frame_body_def by simp
  with first show ?thesis by blast
qed

subsection \<open>Put, then get\<close>

text \<open>
  C2, as stated (after a successful put that no later put overwrites, \<^verbatim>\<open>get\<close> returns
  exactly the value, nothing more of the frame), fails. In the single-file program's own
  \<^verbatim>\<open>main\<close>, \<^verbatim>\<open>get(11)\<close> gives \<^verbatim>\<open>11,11\<close> and \<^verbatim>\<open>get(12)\<close> gives \<^verbatim>\<open>12,12-2\<close>: the key and the comma
  come back with the value. So it is in the engine. A value with the delimiter inside
  comes back cut at the delimiter. And on a directory where \<^verbatim>\<open>store_2.txt\<close> was left by
  an earlier run with a record of key 3, a put of key 3 that triggers rotation is
  followed by a \<^verbatim>\<open>get(3)\<close> that returns the old record.
\<close>

theorem get_returns_more_or_other_than_value:
  "(let sd = Store1_puts (Store1_new ''store.txt'' HashMap_new empty_disk)
               [(11, ''11''), (12, ''12-1''), (12, ''12-2'')]
    in Store1_get (fst sd) (snd sd) 11 [] = (True, ''11,11'') \<and>
       Store1_get (fst sd) (snd sd) 11 [] \<noteq> (True, ''11'') \<and>
       Store1_get (fst sd) (snd sd) 12 [] = (True, ''12,12-2'') \<and>
       Store1_get (fst sd) (snd sd) 12 [] \<noteq> (True, ''12-2'')) \<and>
   (case StorageEngine_puts (StorageEngine_new ''store'' empty_disk) [(11, ''11'')] of
      None \<Rightarrow> False
    | Some (e, d) \<Rightarrow>
        snd (StorageEngine_get e d 11) = Some ''11,11'' \<and>
        snd (StorageEngine_get e d 11) \<noteq> Some ''11'') \<and>
   (case StorageEngine_puts (StorageEngine_new ''store'' empty_disk)
           [(1, ''a'' @ [DELIMITER] @ ''b'')] of
      None \<Rightarrow> False
    | Some (e, d) \<Rightarrow> snd (StorageEngine_get e d 1) = Some ''1,a'') \<and>
   (case StorageEngine_puts
           (StorageEngine_new ''store''
              (empty_disk\<lparr>files := [''store_2.txt'' \<mapsto> ''3,old'' @ [DELIMITER]]\<rparr>))
           [(1, ''11''), (2, ''21''), (4, ''41''), (5, ''51''), (3, ''new'')] of
      None \<Rightarrow> False
    | Some (e, d) \<Rightarrow> snd (StorageEngine_get e d 3) = Some ''3,old'')"
  by (simp add: model_defs)

text \<open>
  C2, amended: for values without the delimiter byte, a put that no later put overwrites
  returns true and \<^verbatim>\<open>get\<close> of its key then returns true with the record as written but
  for the delimiter: the decimal key, a comma, the value. In the engine this is for a
  directory with no log file of the prefix yet, fewer than \<open>2 ^ 63\<close> puts and records
  below \<open>2 ^ 61\<close> bytes; in the single-file program for a file that does not exist yet
  and less than \<open>2 ^ 62\<close> bytes written.
\<close>

theorem put_then_get_returns_frame:
  "(fresh_disk prefix d0 \<and> list_all plain_put (ops1 @ (key, val) # ops2) \<and>
    length (ops1 @ (key, val) # ops2) < 2 ^ 63 \<and> list_all (\<lambda>kv. fst kv \<noteq> key) ops2 \<longrightarrow>
      (\<exists>e1 d1 e2 d2 e d.
         StorageEngine_puts (StorageEngine_new prefix d0) ops1 = Some (e1, d1) \<and>
         StorageEngine_set e1 d1 key val = Some (e2, d2, True) \<and>
         StorageEngine_puts (e2, d2) ops2 = Some (e, d) \<and>
         snd (StorageEngine_get e d key) = Some (to_string key @ '','' @ val))) \<and>
   (files d0 dir = None \<and> can_open d0 dir \<and> can_write d0 dir \<and>
    list_all (\<lambda>kv. DELIMITER \<notin> set (snd kv)) (ops1 @ (key, val) # ops2) \<and>
    frames_size (ops1 @ (key, val) # ops2) < 2 ^ 62 \<and> list_all (\<lambda>kv. fst kv \<noteq> key) ops2 \<longrightarrow>
      snd (snd (Store1_set (fst (Store1_puts (Store1_new dir HashMap_new d0) ops1))
                           (snd (Store1_puts (Store1_new dir HashMap_new d0) ops1)) key val)) \<and>
      Store1_get (fst (Store1_puts (Store1_new dir HashMap_new d0) (ops1 @ (key, val) # ops2)))
                 (snd (Store1_puts (Store1_new dir HashMap_new d0) (ops1 @ (key, val) # ops2)))
                 key out = (True, to_string key @ '','' @ val))"
  using engine_put_then_get [of prefix d0 ops1 key val ops2]
    Store1_put_then_get [of d0 dir ops1 key val ops2 out]
  by blast

theorem put_then_get_returns_frame_witness:
  "fresh_disk ''store'' empty_disk \<and>
   list_all plain_put ([(12, ''12-1'')] @ (11, ''11'') # [(12, ''12-2'')]) \<and>
   list_all (\<lambda>kv. fst kv \<noteq> 11) [(12::int, ''12-2'')] \<and>
   frames_size ([(12, ''12-1'')] @ (11, ''11'') # [(12, ''12-2'')]) < 2 ^ 62 \<and>
   (\<exists>e1 d1 e2 d2 e d.
      StorageEngine_puts (StorageEngine_new ''store'' empty_disk) [(12, ''12-1'')] = Some (e1, d1) \<and>
      StorageEngine_set e1 d1 11 ''11'' = Some (e2, d2, True) \<and>
      StorageEngine_puts (e2, d2) [(12, ''12-2'')] = Some (e, d) \<and>
      snd (StorageEngine_get e d 11) = Some (to_string 11 @ '','' @ ''11'')) \<and>
   Store1_get
     (fst (Store1_puts (Store1_new ''store.txt'' HashMap_new empty_disk)
            ([(12, ''12-1'')] @ (11, ''11'') # [(12, ''12-2'')])))
     (snd (Store1_puts (Store1_new ''store.txt'' HashMap_new empty_disk)
            ([(12, ''12-1'')] @ (11, ''11'') # [(12, ''12-2'')])))
     11 [] = (True, to_string 11 @ '','' @ ''11'')"
proof -
  let ?ops = "[(12, ''12-1'')] @ (11, ''11'') # [(12::int, ''12-2'')]"
  have f: "fresh_disk ''store'' empty_disk" by (simp add: fresh_disk_def empty_disk_def)
  have p: "list_all plain_put ?ops" by (simp add: plain_put_def frame_body_def model_defs)
  have l: "length ?ops < 2 ^ 63" by simp
  have later: "list_all (\<lambda>kv. fst kv \<noteq> 11) [(12::int, ''12-2'')]" by simp
  have a: "files empty_disk ''store.txt'' = None \<and> can_open empty_disk ''store.txt'' \<and>
      can_write empty_disk ''store.txt''" by (simp add: empty_disk_def)
  have q: "list_all (\<lambda>kv. DELIMITER \<notin> set (snd kv)) ?ops" by (simp add: DELIMITER_def)
  have z: "frames_size ?ops < 2 ^ 62" by (simp add: frames_size_def frame_body_def model_defs)
  note T = put_then_get_returns_frame [where prefix = "''store''" and ?d0.0 = empty_disk
      and ?ops1.0 = "[(12, ''12-1'')]" and key = 11 and val = "''11''" and ?ops2.0 = "[(12, ''12-2'')]"
      and dir = "''store.txt''" and out = "[]"]
  from T f p l later a q z show ?thesis by blast
qed

subsection \<open>Two puts of one key\<close>

text \<open>
  C6, as stated (after \<^verbatim>\<open>Put(K, v1); Put(K, v2)\<close>, \<^verbatim>\<open>Get(K)\<close> returns \<^verbatim>\<open>v2\<close>, within one
  segment and across segments), fails: on an empty directory the two puts of key 12 are
  followed by a \<^verbatim>\<open>get\<close> that returns \<^verbatim>\<open>12,12-2\<close>, not \<^verbatim>\<open>12-2\<close>; and on a directory where
  \<^verbatim>\<open>store_2.txt\<close> was left by an earlier run with a record of key 3, the second put of
  key 3 triggers rotation, is written to \<^verbatim>\<open>store_1.txt\<close>, and \<^verbatim>\<open>get(3)\<close> returns the old
  record out of \<^verbatim>\<open>store_2.txt\<close>, which is in front.
\<close>

theorem later_put_returns_frame_or_stale_record:
  "(case StorageEngine_puts (StorageEngine_new ''store'' empty_disk) [(12, ''12-1''), (12, ''12-2'')] of
      None \<Rightarrow> False
    | Some (e, d) \<Rightarrow>
        snd (StorageEngine_get e d 12) = Some ''12,12-2'' \<and>
        snd (StorageEngine_get e d 12) \<noteq> Some ''12-2'') \<and>
   (case StorageEngine_puts
           (StorageEngine_new ''store''
              (empty_disk\<lparr>files := [''store_2.txt'' \<mapsto> ''3,old'' @ [DELIMITER]]\<rparr>))
           [(1, ''11''), (2, ''21''), (4, ''41''), (3, ''v1''), (3, ''v2'')] of
      None \<Rightarrow> False
    | Some (e, d) \<Rightarrow>
        map currDir (activeStores e) = [''store_2.txt'', ''store_1.txt''] \<and>
        files d ''store_1.txt'' =
          Some (''1,11'' @ [DELIMITER] @ ''2,21'' @ [DELIMITER] @ ''4,41'' @ [DELIMITER] @
                ''3,v1'' @ [DELIMITER] @ ''3,v2'' @ [DELIMITER]) \<and>
        snd (StorageEngine_get e d 3) = Some ''3,old'')"
  by (simp add: model_defs)

text \<open>
  C6, amended: on a directory with no log file of the prefix yet, after any puts of
  values without the delimiter (fewer than \<open>2 ^ 63\<close> puts, records below \<open>2 ^ 61\<close>
  bytes), \<^verbatim>\<open>Put(K, v1)\<close> and \<^verbatim>\<open>Put(K, v2)\<close> both return true and \<^verbatim>\<open>Get(K)\<close> then returns the
  record of the later one: the decimal key, a comma, \<^verbatim>\<open>v2\<close>. This holds whether or not
  one of the two puts triggers rotation.
\<close>

theorem later_put_wins_returns_frame:
  assumes fresh: "fresh_disk prefix d0"
    and plain: "list_all plain_put (ops @ [(K, v1), (K, v2)])"
    and len: "length ops + 2 < 2 ^ 63"
  shows "\<exists>e1 d1 e2 d2 e3 d3.
           StorageEngine_puts (StorageEngine_new prefix d0) ops = Some (e1, d1) \<and>
           StorageEngine_set e1 d1 K v1 = Some (e2, d2, True) \<and>
           StorageEngine_set e2 d2 K v2 = Some (e3, d3, True) \<and>
           snd (StorageEngine_get e3 d3 K) = Some (to_string K @ '','' @ v2)"
proof -
  from plain have p0: "list_all plain_put ops" and p1: "plain_put (K, v1)" and p2: "plain_put (K, v2)"
    by simp_all
  from len have l0: "length ops < 2 ^ 63" by simp
  from engine_run_ok [OF fresh p0 l0]
  obtain e1 d1 where r1: "StorageEngine_puts (StorageEngine_new prefix d0) ops = Some (e1, d1)"
    and ok1: "engine_ok e1 d1" and tf1: "totalFiles e1 \<le> 1 + length ops"
    by blast
  have big: "(2::nat) ^ 63 + 2 < 2 ^ 64" by simp
  from tf1 len big have t1: "totalFiles e1 + 1 < U64" unfolding U64_def by linarith
  from p1 have n1: "DELIMITER \<notin> set v1" and s1: "length (frame_body K v1) < 2 ^ 61"
    by (simp_all add: plain_put_def)
  from engine_set_step [OF ok1 n1 s1 t1]
  obtain e2 d2 where r2: "StorageEngine_set e1 d1 K v1 = Some (e2, d2, True)"
    and ok2: "engine_ok e2 d2" and tf2: "totalFiles e2 \<le> totalFiles e1 + 1"
    by blast
  from tf1 tf2 len big have t2: "totalFiles e2 + 1 < U64" unfolding U64_def by linarith
  from p2 have n2: "DELIMITER \<notin> set v2" and s2: "length (frame_body K v2) < 2 ^ 61"
    by (simp_all add: plain_put_def)
  from engine_set_step [OF ok2 n2 s2 t2]
  obtain e3 d3 where r3: "StorageEngine_set e2 d2 K v2 = Some (e3, d3, True)"
    and look: "\<And>k buf. get_loop (activeStores e3) d3 k buf =
              (if k = K then (True, frame_body K v2) else get_loop (activeStores e2) d2 k buf)"
    by blast
  have "get_loop (activeStores e3) d3 K [] = (True, frame_body K v2)" by (simp add: look)
  then have "snd (StorageEngine_get e3 d3 K) = Some (to_string K @ '','' @ v2)"
    by (simp add: engine_get_of_loop frame_body_def)
  with r1 r2 r3 show ?thesis by blast
qed

theorem later_put_wins_returns_frame_witness:
  "fresh_disk ''store'' empty_disk \<and>
   list_all plain_put ([(11, ''11'')] @ [(12, ''12-1''), (12, ''12-2'')]) \<and>
   (\<exists>e1 d1 e2 d2 e3 d3.
      StorageEngine_puts (StorageEngine_new ''store'' empty_disk) [(11, ''11'')] = Some (e1, d1) \<and>
      StorageEngine_set e1 d1 12 ''12-1'' = Some (e2, d2, True) \<and>
      StorageEngine_set e2 d2 12 ''12-2'' = Some (e3, d3, True) \<and>
      snd (StorageEngine_get e3 d3 12) = Some (to_string 12 @ '','' @ ''12-2''))"
proof -
  have f: "fresh_disk ''store'' empty_disk" by (simp add: fresh_disk_def empty_disk_def)
  have p: "list_all plain_put ([(11, ''11'')] @ [(12, ''12-1''), (12, ''12-2'')])"
    by (simp add: plain_put_def frame_body_def model_defs)
  have l: "length [(11::int, ''11'')] + 2 < (2::nat) ^ 63" by simp
  from later_put_wins_returns_frame [OF f p l] f p show ?thesis by blast
qed

section \<open>Keys that are not there\<close>






end
